theory Spec2Isabelle
  imports Main "HOL-Library.Multiset"
begin

section \<open>The component builder of juce\_ComponentBuilder.cpp\<close>

text \<open>
  The builder keeps a tree of live \<open>Component\<close> objects in step with a \<open>ValueTree\<close>.
  All of it works on pointers: components are compared by address, handlers are
  registered by address, a \<open>ValueTree\<close> is a shared handle with a parent back-reference.
  The embedding therefore uses explicit stores. A non-null pointer is a natural
  number, a pointer that may be null is an \<open>option\<close>.
\<close>

subsection \<open>Data\<close>

type_synonym cref = nat \<comment> \<open>\<open>Component*\<close>, not null\<close>
type_synonym href = nat \<comment> \<open>\<open>TypeHandler*\<close>, not null\<close>
type_synonym nref = nat \<comment> \<open>the shared node behind a valid \<open>ValueTree\<close> handle\<close>
type_synonym bref = nat \<comment> \<open>\<open>ComponentBuilder*\<close>, not null\<close>

text \<open>
  The part of a \<open>Component\<close> that the builder reads and writes: its identifier, its
  parent and its children. The child list is kept back to front, as
  \<open>getChildComponent (i)\<close> indexes it: the last entry is the frontmost child.
\<close>

record Component =
  componentID :: string
  parentComponent :: "cref option"
  childComponentList :: "cref list"

text \<open>
  The component heap. A cell holds \<open>None\<close> once its component has been deleted; an
  address past the end has never been allocated.
\<close>

type_synonym Heap = "Component option list"

text \<open>A \<open>TypeHandler\<close> object: the two members its base class declares.\<close>

record TypeHandler =
  type :: string
  builder :: "bref option"

text \<open>
  A node of the state tree. A \<open>ValueTree\<close> handle is \<open>Some n\<close> for the node \<open>n\<close> and
  \<open>None\<close> for the invalid tree. Handles are reference counted, so a valid handle
  always has its node: the node store is a total function. Property values are
  kept as the strings that \<open>toString()\<close> yields.
\<close>

record ValueTreeNode =
  vtType :: string
  vtProperties :: "string \<Rightarrow> string option"
  vtParent :: "nref option"
  vtChildren :: "nref list"

type_synonym ValueTree = "nref option"

text \<open>
  What can stop a call for good: a null pointer is dereferenced, or a pointer to a
  component that is not live.
\<close>

datatype Error = NullPointer | InvalidPointer

text \<open>The assertions of the file, by the condition that failed.\<close>

datatype Assertion =
    EmptyComponentID \<comment> \<open>\<open>jassert (compId.isNotEmpty())\<close>\<close>
  | BadNewComponent \<comment> \<open>\<open>jassert (c != nullptr && c->getParentComponent() == parent)\<close>\<close>
  | NoTypesRegistered \<comment> \<open>\<open>jassert (types.size() > 0)\<close>\<close>
  | UnknownType \<comment> \<open>\<open>jassertfalse\<close> after a failed handler lookup\<close>
  | NullTypeHandler \<comment> \<open>\<open>jassert (type != nullptr)\<close>\<close>
  | TypeHandlerAlreadyOwned \<comment> \<open>\<open>jassert (type->builder == nullptr)\<close>\<close>

text \<open>
  The calls the builder makes on handlers and on components, in the order it makes
  them. The trace is what "nothing was created" or "no z-order call was made" are
  statements about.
\<close>

datatype Event =
    Created href ValueTree "cref option" "cref option"
      \<comment> \<open>\<open>addNewComponentFromState (state, parent)\<close> of a handler, and what it returned\<close>
  | Updated href cref ValueTree \<comment> \<open>\<open>updateComponentFromState (comp, state)\<close> of a handler\<close>
  | Deleted cref \<comment> \<open>a component released by the pool that owned it\<close>
  | ToFront cref \<comment> \<open>\<open>c->toFront (false)\<close>\<close>
  | ToBehind cref cref \<comment> \<open>\<open>c->toBehind (other)\<close>\<close>

text \<open>
  Everything a call can change: the component heap, the handler objects, the
  builder's members \<open>state\<close>, \<open>types\<close> and \<open>component\<close>, the assertions that have
  failed and the trace.
\<close>

record World =
  comps :: Heap
  handlerObjects :: "href \<Rightarrow> TypeHandler"
  state :: ValueTree
  types :: "href list"
  component :: "cref option"
  assertions :: "Assertion list"
  trace :: "Event list"

text \<open>
  What a call only reads: the state tree, the address of the builder, and the two
  virtual functions of the handlers, which the application supplies. A handler
  works on the component heap.
\<close>

record Env =
  valueTrees :: "nref \<Rightarrow> ValueTreeNode"
  thisBuilder :: bref
  addNewComponentFromState :: "href \<Rightarrow> ValueTree \<Rightarrow> cref option \<Rightarrow> Heap \<Rightarrow> cref option \<times> Heap"
  updateComponentFromState :: "href \<Rightarrow> cref \<Rightarrow> ValueTree \<Rightarrow> Heap \<Rightarrow> Heap"

type_synonym 'a Result = "(Error + 'a) \<times> World"

subsection \<open>Primitives that the file uses and does not define\<close>

definition jassert :: "bool \<Rightarrow> Assertion \<Rightarrow> World \<Rightarrow> World" where
  \<comment> \<open>Modelled from the spec: the macros \<open>jassert\<close> and \<open>jassertfalse\<close> are not in the
      file. A failed assertion raises a precondition signal and the call goes on
      (section 7: "a precondition signal is raised in development builds", "production
      behavior is degrade-and-continue").\<close>
  "jassert ok a w = (if ok then w else w\<lparr>assertions := assertions w @ [a]\<rparr>)"

definition lookupC :: "Heap \<Rightarrow> cref \<Rightarrow> Component option" where
  \<comment> \<open>the object behind a pointer, \<open>None\<close> when the pointer dangles\<close>
  "lookupC h c = (if c < length h then h ! c else None)"

definition idProperty :: string where
  \<comment> \<open>\<open>const Identifier ComponentBuilder::idProperty ("id")\<close>\<close>
  "idProperty = ''id''"

definition getType :: "Env \<Rightarrow> ValueTree \<Rightarrow> string" where
  \<comment> \<open>Modelled from the spec: the class \<open>ValueTree\<close> is not in the file. Section 6, "get
      type tag"; the invalid tree has the null identifier.\<close>
  "getType E s = (case s of None \<Rightarrow> [] | Some n \<Rightarrow> vtType (valueTrees E n))"

definition getParent :: "Env \<Rightarrow> ValueTree \<Rightarrow> ValueTree" where
  \<comment> \<open>Modelled from the spec: section 9, the "parent back-reference" of a node; the
      parent of a root, and of the invalid tree, is the invalid tree.\<close>
  "getParent E s = (case s of None \<Rightarrow> None | Some n \<Rightarrow> vtParent (valueTrees E n))"

definition isValid :: "ValueTree \<Rightarrow> bool" where
  "isValid s = (s \<noteq> None)"

definition getChildren :: "Env \<Rightarrow> ValueTree \<Rightarrow> ValueTree list" where
  \<comment> \<open>Modelled from the spec: section 6, "enumerate children in order", that is
      \<open>getChild (i)\<close> for \<open>i\<close> from 0 below \<open>getNumChildren()\<close>.\<close>
  "getChildren E s = (case s of None \<Rightarrow> [] | Some n \<Rightarrow> map Some (vtChildren (valueTrees E n)))"

subsection \<open>ComponentBuilderHelpers\<close>

definition getStateId :: "Env \<Rightarrow> ValueTree \<Rightarrow> string" where
  \<comment> \<open>\<open>state [ComponentBuilder::idProperty].toString()\<close>; a property that is not set,
      and any property of the invalid tree, reads as the empty string\<close>
  "getStateId E s =
     (case s of
        None \<Rightarrow> []
      | Some n \<Rightarrow> (case vtProperties (valueTrees E n) idProperty of None \<Rightarrow> [] | Some v \<Rightarrow> v))"

text \<open>
  The loop of \<open>removeComponentWithID\<close>, \<open>for (int i = components.size(); --i >= 0;)\<close>.
  The counter is the value of \<open>i\<close> before the decrement: at \<open>Suc i\<close> the body runs
  with index \<open>i\<close>.
\<close>

fun removeLoop :: "Heap \<Rightarrow> cref list \<Rightarrow> string \<Rightarrow> nat \<Rightarrow> Error + (cref option \<times> cref list)" where
  "removeLoop h components compId 0 = Inr (None, components)"
| "removeLoop h components compId (Suc i) =
     (case lookupC h (components ! i) of
        None \<Rightarrow> Inl InvalidPointer
      | Some c \<Rightarrow>
          if componentID c = compId
          then Inr (Some (components ! i), take i components @ drop (Suc i) components)
          else removeLoop h components compId i)"

definition removeComponentWithID ::
  "cref list \<Rightarrow> string \<Rightarrow> World \<Rightarrow> (cref option \<times> cref list) Result" where
  "removeComponentWithID components compId w =
     (let w1 = jassert (compId \<noteq> []) EmptyComponentID w
      in (removeLoop (comps w1) components compId (length components), w1))"

text \<open>
  \<open>findComponentWithID\<close> calls itself on every child, so on a heap whose child
  pointers run in a cycle it does not return. The first argument bounds the depth
  of the calls; \<open>None\<close> says that the bound was reached.
\<close>

fun findComponentWithID :: "nat \<Rightarrow> cref \<Rightarrow> string \<Rightarrow> World \<Rightarrow> (cref option) Result option"
  and findInChildren :: "nat \<Rightarrow> cref list \<Rightarrow> string \<Rightarrow> World \<Rightarrow> (cref option) Result option"
where
  "findComponentWithID 0 c compId w = None"
| "findComponentWithID (Suc fuel) c compId w =
     (let w1 = jassert (compId \<noteq> []) EmptyComponentID w
      in case lookupC (comps w1) c of
           None \<Rightarrow> Some (Inl InvalidPointer, w1)
         | Some obj \<Rightarrow>
             if componentID obj = compId then Some (Inr (Some c), w1)
             else findInChildren fuel (childComponentList obj) compId w1)"
| "findInChildren fuel [] compId w = Some (Inr None, w)"
| "findInChildren fuel (child # children) compId w =
     (case findComponentWithID fuel child compId w of
        None \<Rightarrow> None
      | Some (Inl e, w1) \<Rightarrow> Some (Inl e, w1)
      | Some (Inr (Some found), w1) \<Rightarrow> Some (Inr (Some found), w1)
      | Some (Inr None, w1) \<Rightarrow> findInChildren fuel children compId w1)"

definition setComponentID :: "cref \<Rightarrow> string \<Rightarrow> Heap \<Rightarrow> Heap" where
  \<comment> \<open>Modelled from the spec: \<open>Component::setComponentID\<close> is not in the file. Section
      6, "get/set a stable string identifier".\<close>
  "setComponentID c newID h =
     (case lookupC h c of None \<Rightarrow> h | Some obj \<Rightarrow> h[c := Some (obj\<lparr>componentID := newID\<rparr>)])"

definition createNewComponent :: "Env \<Rightarrow> href \<Rightarrow> ValueTree \<Rightarrow> cref option \<Rightarrow> World \<Rightarrow> cref Result" where
  "createNewComponent E t s parent w =
     (let (c, h1) = addNewComponentFromState E t s parent (comps w);
          w1 = w\<lparr>comps := h1, trace := trace w @ [Created t s parent c]\<rparr>
      in case c of
           None \<Rightarrow> (Inl NullPointer, jassert False BadNewComponent w1)
         | Some c' \<Rightarrow>
             (case lookupC h1 c' of
                None \<Rightarrow> (Inl InvalidPointer, w1)
              | Some obj \<Rightarrow>
                  let w2 = jassert (parentComponent obj = parent) BadNewComponent w1
                  in (Inr c', w2\<lparr>comps := setComponentID c' (getStateId E s) (comps w2)\<rparr>)))"

subsection \<open>ComponentBuilder\<close>

fun getHandlerLoop :: "(href \<Rightarrow> TypeHandler) \<Rightarrow> string \<Rightarrow> href list \<Rightarrow> href option" where
  "getHandlerLoop hs targetType [] = None"
| "getHandlerLoop hs targetType (t # ts) =
     (if type (hs t) = targetType then Some t else getHandlerLoop hs targetType ts)"

definition getHandlerForState :: "Env \<Rightarrow> World \<Rightarrow> ValueTree \<Rightarrow> href option" where
  "getHandlerForState E w s = getHandlerLoop (handlerObjects w) (getType E s) (types w)"

definition createComponent :: "Env \<Rightarrow> World \<Rightarrow> (cref option) Result" where
  "createComponent E w =
     (let w1 = jassert (length (types w) > 0) NoTypesRegistered w
      in case getHandlerForState E w1 (state w1) of
           Some t \<Rightarrow>
             (case createNewComponent E t (state w1) None w1 of
                (Inl e, w2) \<Rightarrow> (Inl e, w2)
              | (Inr c, w2) \<Rightarrow> (Inr (Some c), w2))
         | None \<Rightarrow> (Inr None, jassert False UnknownType w1))"

definition getManagedComponent :: "Env \<Rightarrow> World \<Rightarrow> (cref option) Result" where
  \<comment> \<open>the debug-only member \<open>componentRef\<close> is left out\<close>
  "getManagedComponent E w =
     (case component w of
        None \<Rightarrow>
          (case createComponent E w of
             (Inl e, w1) \<Rightarrow> (Inl e, w1)
           | (Inr c, w1) \<Rightarrow> (Inr c, w1\<lparr>component := c\<rparr>))
      | Some c \<Rightarrow> (Inr (Some c), w))"



text \<open>
  \<open>updateComponent\<close> calls itself on the parent of the state node, and searches the
  component tree with what is left of the bound.
\<close>

fun updateComponent :: "nat \<Rightarrow> Env \<Rightarrow> ValueTree \<Rightarrow> World \<Rightarrow> unit Result option" where
  "updateComponent 0 E s w = None"
| "updateComponent (Suc fuel) E s w =
     (case getManagedComponent E w of
        (Inl e, w1) \<Rightarrow> Some (Inl e, w1)
      | (Inr None, w1) \<Rightarrow> Some (Inr (), w1)
      | (Inr (Some topLevelComp), w1) \<Rightarrow>
          (let t = getHandlerForState E w1 s;
               uid = getStateId E s
           in if t = None \<or> uid = []
              then (if isValid (getParent E s)
                    then updateComponent fuel E (getParent E s) w1
                    else Some (Inr (), w1))
              else (case findComponentWithID fuel topLevelComp uid w1 of
                      None \<Rightarrow> None
                    | Some (Inl e, w2) \<Rightarrow> Some (Inl e, w2)
                    | Some (Inr None, w2) \<Rightarrow> Some (Inr (), w2)
                    | Some (Inr (Some changedComp), w2) \<Rightarrow>
                        Some (Inr (),
                              w2\<lparr>comps := updateComponentFromState E (the t) changedComp s (comps w2),
                                 trace := trace w2 @ [Updated (the t) changedComp s]\<rparr>))))"

definition valueTreePropertyChanged :: "nat \<Rightarrow> Env \<Rightarrow> ValueTree \<Rightarrow> string \<Rightarrow> World \<Rightarrow> unit Result option" where
  "valueTreePropertyChanged fuel E tree property w = updateComponent fuel E tree w"

definition valueTreeChildAdded :: "nat \<Rightarrow> Env \<Rightarrow> ValueTree \<Rightarrow> ValueTree \<Rightarrow> World \<Rightarrow> unit Result option" where
  "valueTreeChildAdded fuel E tree child w = updateComponent fuel E tree w"

definition valueTreeChildRemoved :: "nat \<Rightarrow> Env \<Rightarrow> ValueTree \<Rightarrow> ValueTree \<Rightarrow> int \<Rightarrow> World \<Rightarrow> unit Result option" where
  "valueTreeChildRemoved fuel E tree child i w = updateComponent fuel E tree w"

definition valueTreeChildOrderChanged :: "nat \<Rightarrow> Env \<Rightarrow> ValueTree \<Rightarrow> int \<Rightarrow> int \<Rightarrow> World \<Rightarrow> unit Result option" where
  "valueTreeChildOrderChanged fuel E tree i j w = updateComponent fuel E tree w"

definition valueTreeParentChanged :: "nat \<Rightarrow> Env \<Rightarrow> ValueTree \<Rightarrow> World \<Rightarrow> unit Result option" where
  "valueTreeParentChanged fuel E tree w = updateComponent fuel E tree w"

subsection \<open>The component operations behind updateChildComponents\<close>

fun detachChildren :: "cref list \<Rightarrow> Heap \<Rightarrow> Heap" where
  \<comment> \<open>Modelled from the spec: \<open>Component::removeChildComponent\<close> is not in the file.
      Section 5, "owned by its parent instance once attached": a component that its
      parent lets go of has no parent. Each of the listed components that is live
      loses its parent pointer.\<close>
  "detachChildren [] h = h"
| "detachChildren (x # xs) h =
     detachChildren xs
       (case lookupC h x of None \<Rightarrow> h | Some obj \<Rightarrow> h[x := Some (obj\<lparr>parentComponent := None\<rparr>)])"

definition deleteComponent :: "cref \<Rightarrow> World \<Rightarrow> unit Result" where
  \<comment> \<open>Modelled from the spec: the destructor of \<open>Component\<close> is not in the file. Section 6,
      "destroy on owner release": the instance stops being live and leaves the child
      list of its parent. Before it goes it lets go of its own children, the last one
      first, as the destructor of the toolkit does: they are left without a parent,
      so that no live component points at the cell that is gone.\<close>
  "deleteComponent c w =
     (case lookupC (comps w) c of
        None \<Rightarrow> (Inl InvalidPointer, w)
      | Some obj \<Rightarrow>
          (let h1 = detachChildren (rev (childComponentList obj)) (comps w)
           in case parentComponent obj of
                None \<Rightarrow> (Inr (), w\<lparr>comps := h1[c := None], trace := trace w @ [Deleted c]\<rparr>)
              | Some p \<Rightarrow>
                  (case lookupC h1 p of
                     None \<Rightarrow> (Inl InvalidPointer, w)
                   | Some pc \<Rightarrow>
                       (Inr (),
                        w\<lparr>comps := h1[p := Some (pc\<lparr>childComponentList := removeAll c (childComponentList pc)\<rparr>),
                                      c := None],
                          trace := trace w @ [Deleted c]\<rparr>))))"

fun deleteEach :: "cref list \<Rightarrow> World \<Rightarrow> unit Result" where
  "deleteEach [] w = (Inr (), w)"
| "deleteEach (c # cs) w =
     (case deleteComponent c w of
        (Inl e, w1) \<Rightarrow> (Inl e, w1)
      | (Inr u, w1) \<Rightarrow> deleteEach cs w1)"

definition deleteAllObjects :: "cref list \<Rightarrow> World \<Rightarrow> unit Result" where
  \<comment> \<open>Modelled from the spec: the destructor of \<open>OwnedArray\<close> is not in the file. Section
      4.2, step 3: the pool members that were not consumed are destroyed; here from
      the last to the first.\<close>
  "deleteAllObjects components w = deleteEach (rev components) w"

definition raiseToFront :: "cref \<Rightarrow> cref list \<Rightarrow> cref list" where
  "raiseToFront c l = (if c \<in> set l then remove1 c l @ [c] else l)"

fun insertBefore :: "cref \<Rightarrow> cref \<Rightarrow> cref list \<Rightarrow> cref list" where
  "insertBefore c other [] = []"
| "insertBefore c other (x # xs) =
     (if x = other then c # x # xs else x # insertBefore c other xs)"

definition placeBehind :: "cref \<Rightarrow> cref \<Rightarrow> cref list \<Rightarrow> cref list" where
  "placeBehind c other l =
     (if c \<in> set l \<and> other \<in> set l \<and> c \<noteq> other then insertBefore c other (remove1 c l) else l)"

definition toFront :: "cref \<Rightarrow> World \<Rightarrow> unit Result" where
  \<comment> \<open>Modelled from the spec: \<open>Component::toFront\<close> is not in the file. Section 6,
      "raise-to-front": the instance becomes the last entry of the child list of its
      parent. An instance without a parent has no siblings to be raised over.\<close>
  "toFront c w =
     (case lookupC (comps w) c of
        None \<Rightarrow> (Inl InvalidPointer, w)
      | Some obj \<Rightarrow>
          (case parentComponent obj of
             None \<Rightarrow> (Inr (), w\<lparr>trace := trace w @ [ToFront c]\<rparr>)
           | Some p \<Rightarrow>
               (case lookupC (comps w) p of
                  None \<Rightarrow> (Inl InvalidPointer, w)
                | Some pc \<Rightarrow>
                    (Inr (),
                     w\<lparr>comps := (comps w)[p := Some (pc\<lparr>childComponentList := raiseToFront c (childComponentList pc)\<rparr>)],
                       trace := trace w @ [ToFront c]\<rparr>))))"

definition toBehind :: "cref \<Rightarrow> cref \<Rightarrow> World \<Rightarrow> unit Result" where
  \<comment> \<open>Modelled from the spec: \<open>Component::toBehind\<close> is not in the file. Section 6,
      "move-behind(sibling)", and section 4.2, step 4, "placed immediately behind":
      the instance moves to the place just before the sibling in the child list of
      its parent.\<close>
  "toBehind c other w =
     (case lookupC (comps w) c of
        None \<Rightarrow> (Inl InvalidPointer, w)
      | Some obj \<Rightarrow>
          (case parentComponent obj of
             None \<Rightarrow> (Inr (), w\<lparr>trace := trace w @ [ToBehind c other]\<rparr>)
           | Some p \<Rightarrow>
               (case lookupC (comps w) p of
                  None \<Rightarrow> (Inl InvalidPointer, w)
                | Some pc \<Rightarrow>
                    (Inr (),
                     w\<lparr>comps := (comps w)[p := Some (pc\<lparr>childComponentList := placeBehind c other (childComponentList pc)\<rparr>)],
                       trace := trace w @ [ToBehind c other]\<rparr>))))"

subsection \<open>updateChildComponents\<close>

text \<open>
  The loop over the new child states, \<open>children.getChild (i)\<close> for \<open>i\<close> from 0. It
  carries the two local arrays: the pool \<open>existingComponents\<close> and the result
  \<open>componentsInOrder\<close>.
\<close>

fun childStateLoop ::
  "Env \<Rightarrow> cref \<Rightarrow> ValueTree list \<Rightarrow> cref list \<Rightarrow> cref list \<Rightarrow> World \<Rightarrow> (cref list \<times> cref list) Result" where
  "childStateLoop E parent [] existingComponents componentsInOrder w =
     (Inr (existingComponents, componentsInOrder), w)"
| "childStateLoop E parent (childState # rest) existingComponents componentsInOrder w =
     (case removeComponentWithID existingComponents (getStateId E childState) w of
        (Inl e, w1) \<Rightarrow> (Inl e, w1)
      | (Inr (Some c, pool), w1) \<Rightarrow> childStateLoop E parent rest pool (componentsInOrder @ [c]) w1
      | (Inr (None, pool), w1) \<Rightarrow>
          (case getHandlerForState E w1 childState of
             Some t \<Rightarrow>
               (case createNewComponent E t childState (Some parent) w1 of
                  (Inl e, w2) \<Rightarrow> (Inl e, w2)
                | (Inr c, w2) \<Rightarrow> childStateLoop E parent rest pool (componentsInOrder @ [c]) w2)
           | None \<Rightarrow> childStateLoop E parent rest pool componentsInOrder (jassert False UnknownType w1)))"

text \<open>
  The loop of the z-order pass, \<open>for (int i = componentsInOrder.size() - 1; --i >= 0;)\<close>;
  again the counter is the value of \<open>i\<close> before the decrement.
\<close>

fun toBehindLoop :: "cref list \<Rightarrow> nat \<Rightarrow> World \<Rightarrow> unit Result" where
  "toBehindLoop componentsInOrder 0 w = (Inr (), w)"
| "toBehindLoop componentsInOrder (Suc i) w =
     (case toBehind (componentsInOrder ! i) (componentsInOrder ! Suc i) w of
        (Inl e, w1) \<Rightarrow> (Inl e, w1)
      | (Inr u, w1) \<Rightarrow> toBehindLoop componentsInOrder i w1)"

definition zOrderPass :: "cref list \<Rightarrow> World \<Rightarrow> unit Result" where
  "zOrderPass componentsInOrder w =
     (if length componentsInOrder > 0
      then (case toFront (last componentsInOrder) w of
              (Inl e, w1) \<Rightarrow> (Inl e, w1)
            | (Inr u, w1) \<Rightarrow> toBehindLoop componentsInOrder (length componentsInOrder - 1) w1)
      else (Inr (), w))"

definition updateChildComponents :: "Env \<Rightarrow> cref \<Rightarrow> ValueTree \<Rightarrow> World \<Rightarrow> unit Result" where
  "updateChildComponents E parent children w =
     (case lookupC (comps w) parent of
        None \<Rightarrow> (Inl InvalidPointer, w)
      | Some p \<Rightarrow>
          (case childStateLoop E parent (getChildren E children) (childComponentList p) [] w of
             (Inl e, w1) \<Rightarrow> (Inl e, w1)
           | (Inr (existingComponents, componentsInOrder), w1) \<Rightarrow>
               (case deleteAllObjects existingComponents w1 of
                  (Inl e, w2) \<Rightarrow> (Inl e, w2)
                | (Inr u, w2) \<Rightarrow> zOrderPass componentsInOrder w2)))"

section \<open>Notions used in the statements\<close>

definition hasID :: "Heap \<Rightarrow> string \<Rightarrow> cref \<Rightarrow> bool" where
  \<comment> \<open>\<open>c\<close> is live and \<open>c->getComponentID() == compId\<close>\<close>
  "hasID h compId c = (case lookupC h c of None \<Rightarrow> False | Some obj \<Rightarrow> componentID obj = compId)"

definition getComponentID :: "Heap \<Rightarrow> cref \<Rightarrow> string option" where
  "getComponentID h c = map_option componentID (lookupC h c)"

definition isLive :: "Heap \<Rightarrow> cref \<Rightarrow> bool" where
  "isLive h c = (lookupC h c \<noteq> None)"

definition childrenOf :: "Heap \<Rightarrow> cref \<Rightarrow> cref list" where
  \<comment> \<open>the child list of a live component, back to front\<close>
  "childrenOf h p = (case lookupC h p of None \<Rightarrow> [] | Some obj \<Rightarrow> childComponentList obj)"

definition isChildOf :: "Heap \<Rightarrow> cref \<Rightarrow> cref \<Rightarrow> bool" where
  \<comment> \<open>\<open>c\<close> is live and \<open>c->getParentComponent() == p\<close>\<close>
  "isChildOf h p c = (case lookupC h c of None \<Rightarrow> False | Some obj \<Rightarrow> parentComponent obj = Some p)"

definition setChildren :: "cref \<Rightarrow> cref list \<Rightarrow> Heap \<Rightarrow> Heap" where
  \<comment> \<open>the heap with the child list of \<open>p\<close> replaced and nothing else touched\<close>
  "setChildren p l h =
     (case lookupC h p of None \<Rightarrow> h | Some obj \<Rightarrow> h[p := Some (obj\<lparr>childComponentList := l\<rparr>)])"

text \<open>
  A parent and its children as the component tree keeps them: the parent is live,
  no child is listed twice, every listed child is live and points back to the
  parent, and the parent is not its own child.
\<close>

definition familyOK :: "Heap \<Rightarrow> cref \<Rightarrow> bool" where
  "familyOK h p =
     (isLive h p \<and> distinct (childrenOf h p) \<and> p \<notin> set (childrenOf h p) \<and>
      (\<forall>c \<in> set (childrenOf h p). isChildOf h p c))"

text \<open>
  The same two levels down, as far as the release of a child reaches: the child
  list of every child holds only components that point back to that child, and the
  parent is not the child of one of its children.
\<close>

definition familyTree :: "Heap \<Rightarrow> cref \<Rightarrow> bool" where
  "familyTree h p =
     (familyOK h p \<and>
      (\<forall>c \<in> set (childrenOf h p).
         \<not> isChildOf h c p \<and> (\<forall>x \<in> set (childrenOf h c). isChildOf h c x)))"

text \<open>
  What holds of the two local arrays of \<open>updateChildComponents\<close> at every turn of
  its loop: between them the pool and the result hold each child of the parent
  exactly once, and each of these is live and points back to the parent.
\<close>

definition poolInv :: "Heap \<Rightarrow> cref \<Rightarrow> cref list \<Rightarrow> cref list \<Rightarrow> bool" where
  "poolInv h p pool acc =
     (isLive h p \<and> p \<notin> set pool \<union> set acc \<and> distinct (pool @ acc) \<and>
      distinct (childrenOf h p) \<and> set (childrenOf h p) = set pool \<union> set acc \<and>
      (\<forall>c \<in> set pool \<union> set acc. isChildOf h p c))"

definition isBehind :: "Heap \<Rightarrow> cref \<Rightarrow> cref \<Rightarrow> cref \<Rightarrow> bool" where
  \<comment> \<open>among the children of \<open>p\<close>, \<open>x\<close> is stacked behind \<open>y\<close>\<close>
  "isBehind h p x y =
     (\<exists>i j. i < j \<and> j < length (childrenOf h p) \<and> childrenOf h p ! i = x \<and> childrenOf h p ! j = y)"

definition isChurn :: "Event \<Rightarrow> bool" where
  \<comment> \<open>a creation or a destruction\<close>
  "isChurn e = (case e of Created t s p c \<Rightarrow> True | Deleted c \<Rightarrow> True | _ \<Rightarrow> False)"

text \<open>
  The z-order calls that section 4.2, step 4, of the spec lists for a result list:
  the last element is raised to the front, then each preceding element, from the
  last but one down to the first, is placed behind its successor.
\<close>

definition zOrderCalls :: "cref list \<Rightarrow> Event list" where
  "zOrderCalls cs =
     (if cs = [] then []
      else ToFront (last cs) # map (\<lambda>i. ToBehind (cs ! i) (cs ! Suc i)) (rev [0..<length cs - 1]))"

text \<open>
  The contract of a handler's creation operation (section 4.1 of the spec), with
  the frame that goes without saying there: called with a live parent, it returns
  a component that was not live before, is live now and has that parent; the
  parent's child list gains this component and nothing else; and every other
  component that was live is as it was.
\<close>

definition attachesFreshChild :: "Env \<Rightarrow> bool" where
  "attachesFreshChild E =
     (\<forall>t s p h. isLive h p \<longrightarrow>
        (case addNewComponentFromState E t s (Some p) h of
           (None, h') \<Rightarrow> False
         | (Some c, h') \<Rightarrow>
             \<not> isLive h c \<and> isChildOf h' p c \<and>
             (\<exists>l. mset l = add_mset c (mset (childrenOf h p)) \<and>
                  lookupC h' p = lookupC (setChildren p l h) p) \<and>
             (\<forall>x. x \<noteq> p \<and> isLive h x \<longrightarrow> lookupC h' x = lookupC h x)))"

text \<open>
  The spec's "nearest ancestor with a handler and an id" (section 4.3), in the
  spec's words: a state node is mapped when its type has a registered handler and
  its \<open>id\<close> is not empty; of the node itself and its ancestors, nearest first, the
  first mapped one is taken. The chain is followed for at most \<open>n\<close> parents.
\<close>

fun selfAndAncestors :: "nat \<Rightarrow> Env \<Rightarrow> ValueTree \<Rightarrow> ValueTree list" where
  "selfAndAncestors 0 E s = [s]"
| "selfAndAncestors (Suc n) E s =
     s # (if isValid (getParent E s) then selfAndAncestors n E (getParent E s) else [])"

definition isMapped :: "Env \<Rightarrow> World \<Rightarrow> ValueTree \<Rightarrow> bool" where
  "isMapped E w s = (getHandlerForState E w s \<noteq> None \<and> getStateId E s \<noteq> [])"

definition nearestMapped :: "nat \<Rightarrow> Env \<Rightarrow> World \<Rightarrow> ValueTree \<Rightarrow> ValueTree option" where
  "nearestMapped n E w s = find (isMapped E w) (selfAndAncestors n E s)"

text \<open>
  The components of the tree under \<open>c\<close> in the order in which a depth-first walk
  meets them, a component before its children and the children in the order of
  the child list, down to \<open>n\<close> levels. "The live instance carrying the id" of the
  spec is the first component of this list with that identifier.
\<close>

fun preorder :: "nat \<Rightarrow> Heap \<Rightarrow> cref \<Rightarrow> cref list" where
  "preorder 0 h c = []"
| "preorder (Suc n) h c = c # concat (map (preorder n h) (childrenOf h c))"

definition instanceWithID :: "nat \<Rightarrow> Heap \<Rightarrow> cref \<Rightarrow> string \<Rightarrow> cref option" where
  "instanceWithID n h root compId = find (hasID h compId) (preorder n h root)"

text \<open>
  Section 4.2, step 2, of the spec, read for which of the new child states get an
  instance, in their order. A state whose id is the identifier of a pool member
  that has not been taken gets that member, and the identifier is taken once;
  another state gets a new instance when its type has a handler and is left out
  when it has not. \<open>ids\<close> are the identifiers of the pool members.
\<close>

fun keptStates :: "Env \<Rightarrow> World \<Rightarrow> string option list \<Rightarrow> ValueTree list \<Rightarrow> ValueTree list" where
  "keptStates E w ids [] = []"
| "keptStates E w ids (s # rest) =
     (if Some (getStateId E s) \<in> set ids
      then s # keptStates E w (remove1 (Some (getStateId E s)) ids) rest
      else if getHandlerForState E w s \<noteq> None then s # keptStates E w ids rest
      else keptStates E w ids rest)"

section \<open>Example data\<close>

definition button :: "string \<Rightarrow> cref option \<Rightarrow> Component" where
  "button i p = \<lparr>componentID = i, parentComponent = p, childComponentList = []\<rparr>"

definition panelHeap :: Heap where
  \<comment> \<open>a panel at address 0 with three children, two of which share an identifier\<close>
  "panelHeap =
     [Some \<lparr>componentID = ''root'', parentComponent = None, childComponentList = [1, 2, 3]\<rparr>,
      Some (button ''a'' (Some 0)), Some (button ''b'' (Some 0)), Some (button ''a'' (Some 0))]"

definition emptyWorld :: World where
  "emptyWorld =
     \<lparr>comps = [], handlerObjects = (\<lambda>h. \<lparr>type = [], builder = None\<rparr>), state = None, types = [],
      component = None, assertions = [], trace = []\<rparr>"

definition appendComponent :: "href \<Rightarrow> ValueTree \<Rightarrow> cref option \<Rightarrow> Heap \<Rightarrow> cref option \<times> Heap" where
  \<comment> \<open>a handler in the way of \<open>parent->addAndMakeVisible (new Component())\<close>: the new
      component takes the next free address and becomes the frontmost child\<close>
  "appendComponent t s p h =
     (Some (length h),
      (case p of
         None \<Rightarrow> h
       | Some a \<Rightarrow>
           (case lookupC h a of
              None \<Rightarrow> h
            | Some pc \<Rightarrow> h[a := Some (pc\<lparr>childComponentList := childComponentList pc @ [length h]\<rparr>)]))
      @ [Some \<lparr>componentID = [], parentComponent = p, childComponentList = []\<rparr>])"

definition demoTree :: "nref \<Rightarrow> ValueTreeNode" where
  \<comment> \<open>at 0 a panel "root" with the buttons "b1" and "b2" and a group without
      identifier, which holds a note; at 5 the panel with the two buttons swapped and
      the group gone; at 6 the panel with a new button "b3", the note and "b2"; at 8
      a slider on its own; at 9 a panel with two buttons that share the id "a"\<close>
  "demoTree n =
     (if n = 0 then \<lparr>vtType = ''Panel'', vtProperties = [idProperty \<mapsto> ''root''],
                     vtParent = None, vtChildren = [1, 2, 3]\<rparr>
      else if n = 1 then \<lparr>vtType = ''Button'', vtProperties = [idProperty \<mapsto> ''b1''],
                          vtParent = Some 0, vtChildren = []\<rparr>
      else if n = 2 then \<lparr>vtType = ''Button'', vtProperties = [idProperty \<mapsto> ''b2''],
                          vtParent = Some 0, vtChildren = []\<rparr>
      else if n = 3 then \<lparr>vtType = ''Group'', vtProperties = Map.empty,
                          vtParent = Some 0, vtChildren = [4]\<rparr>
      else if n = 4 then \<lparr>vtType = ''Note'', vtProperties = [idProperty \<mapsto> ''n1''],
                          vtParent = Some 3, vtChildren = []\<rparr>
      else if n = 5 then \<lparr>vtType = ''Panel'', vtProperties = [idProperty \<mapsto> ''root''],
                          vtParent = None, vtChildren = [2, 1]\<rparr>
      else if n = 6 then \<lparr>vtType = ''Panel'', vtProperties = [idProperty \<mapsto> ''root''],
                          vtParent = None, vtChildren = [7, 4, 2]\<rparr>
      else if n = 7 then \<lparr>vtType = ''Button'', vtProperties = [idProperty \<mapsto> ''b3''],
                          vtParent = Some 6, vtChildren = []\<rparr>
      else if n = 8 then \<lparr>vtType = ''Slider'', vtProperties = [idProperty \<mapsto> ''s1''],
                          vtParent = None, vtChildren = []\<rparr>
      else if n = 9 then \<lparr>vtType = ''Panel'', vtProperties = [idProperty \<mapsto> ''root''],
                          vtParent = None, vtChildren = [10, 11]\<rparr>
      else if n = 10 then \<lparr>vtType = ''Button'', vtProperties = [idProperty \<mapsto> ''a''],
                           vtParent = Some 9, vtChildren = []\<rparr>
      else if n = 11 then \<lparr>vtType = ''Button'', vtProperties = [idProperty \<mapsto> ''a''],
                           vtParent = Some 9, vtChildren = []\<rparr>
      else \<lparr>vtType = [], vtProperties = Map.empty, vtParent = None, vtChildren = []\<rparr>)"

definition demoEnv :: Env where
  "demoEnv =
     \<lparr>valueTrees = demoTree, thisBuilder = 7, addNewComponentFromState = appendComponent,
      updateComponentFromState = (\<lambda>t c s h. h)\<rparr>"

definition demoHandlers :: "href \<Rightarrow> TypeHandler" where
  "demoHandlers h =
     (if h = 0 then \<lparr>type = ''Panel'', builder = Some 7\<rparr>
      else if h = 1 then \<lparr>type = ''Button'', builder = Some 7\<rparr>
      else \<lparr>type = ''Slider'', builder = None\<rparr>)"

definition demoWorld :: World where
  \<comment> \<open>the builder on the root of \<open>demoTree\<close>, two handlers registered, nothing built yet\<close>
  "demoWorld =
     \<lparr>comps = [], handlerObjects = demoHandlers, state = Some 0, types = [0, 1],
      component = None, assertions = [], trace = []\<rparr>"

definition builtHeap :: Heap where
  \<comment> \<open>the panel and its two buttons, as built from \<open>demoTree\<close>\<close>
  "builtHeap =
     [Some \<lparr>componentID = ''root'', parentComponent = None, childComponentList = [1, 2]\<rparr>,
      Some (button ''b1'' (Some 0)), Some (button ''b2'' (Some 0))]"

definition nestedHeap :: Heap where
  \<comment> \<open>the panel and its two buttons, the first of which has a child of its own; at 4
      a component that belongs to none of them\<close>
  "nestedHeap =
     [Some \<lparr>componentID = ''root'', parentComponent = None, childComponentList = [1, 2]\<rparr>,
      Some \<lparr>componentID = ''b1'', parentComponent = Some 0, childComponentList = [3]\<rparr>,
      Some (button ''b2'' (Some 0)), Some (button ''g'' (Some 1)), Some (button ''x'' None)]"

definition builtWorld :: World where
  "builtWorld = demoWorld\<lparr>comps := builtHeap, component := Some 0\<rparr>"

definition demoDepth :: "nref \<Rightarrow> nat" where
  \<comment> \<open>the depth of the nodes of \<open>demoTree\<close>\<close>
  "demoDepth n =
     (if n = 4 then 2 else if n = 1 \<or> n = 2 \<or> n = 3 \<or> n = 7 \<or> n = 10 \<or> n = 11 then 1 else 0)"

definition builtRank :: "cref \<Rightarrow> nat" where
  \<comment> \<open>the height of the components of \<open>builtHeap\<close>\<close>
  "builtRank c = (if c = 0 then 1 else 0)"

section \<open>Properties\<close>

subsection \<open>removeComponentWithID\<close>

lemma jassert_comps [simp]: "comps (jassert b a w) = comps w"
  by (simp add: jassert_def)

lemma jassert_trace [simp]: "trace (jassert b a w) = trace w"
  by (simp add: jassert_def)

lemma jassert_True [simp]: "jassert True a w = w"
  by (simp add: jassert_def)

lemma removeLoop_found:
  "k \<le> length cs \<Longrightarrow> i < k \<Longrightarrow> hasID h compId (cs ! i) \<Longrightarrow>
   \<forall>j. i < j \<and> j < k \<longrightarrow> isLive h (cs ! j) \<and> \<not> hasID h compId (cs ! j) \<Longrightarrow>
   removeLoop h cs compId k = Inr (Some (cs ! i), take i cs @ drop (Suc i) cs)"
proof (induction k)
  case 0
  then show ?case by simp
next
  case (Suc k)
  show ?case
  proof (cases "i = k")
    case True
    with Suc.prems show ?thesis by (auto simp: hasID_def split: option.splits)
  next
    case False
    with Suc.prems have ik: "i < k" by simp
    with Suc.prems have "isLive h (cs ! k) \<and> \<not> hasID h compId (cs ! k)" by simp
    then obtain obj where o: "lookupC h (cs ! k) = Some obj" "componentID obj \<noteq> compId"
      by (auto simp: isLive_def hasID_def)
    have "removeLoop h cs compId k = Inr (Some (cs ! i), take i cs @ drop (Suc i) cs)"
      using Suc.IH Suc.prems ik by simp
    with o show ?thesis by simp
  qed
qed

lemma removeLoop_none:
  "\<forall>i<k. isLive h (cs ! i) \<and> \<not> hasID h compId (cs ! i) \<Longrightarrow>
   removeLoop h cs compId k = Inr (None, cs)"
  by (induction k) (auto simp: isLive_def hasID_def split: option.splits)

lemma removeLoop_shape:
  "removeLoop h cs compId k = Inr (Some c, pool) \<Longrightarrow>
   \<exists>i<k. c = cs ! i \<and> pool = take i cs @ drop (Suc i) cs \<and> hasID h compId c"
  by (induction k) (auto simp: hasID_def split: option.splits if_splits intro: less_SucI)

lemma removeLoop_shape_none:
  "removeLoop h cs compId k = Inr (None, pool) \<Longrightarrow> pool = cs"
  by (induction k) (auto split: option.splits if_splits)

lemma mset_remove_nth:
  "i < length cs \<Longrightarrow> mset cs = add_mset (cs ! i) (mset (take i cs @ drop (Suc i) cs))"
  by (metis Cons_nth_drop_Suc append_take_drop_id mset.simps(2) union_mset_add_mset_right mset_append)

lemma subseteq_add_mset_right: "A \<subseteq># B \<Longrightarrow> A \<subseteq># add_mset c B"
  by (simp add: subseteq_mset_def le_SucI)

text \<open>
  Over the whole loop the pool only loses entries, and every entry it loses has
  gone into the result.
\<close>

lemma childStateLoop_consumes:
  "childStateLoop E parent kids pool acc w = (Inr (pool', acc'), w') \<Longrightarrow>
   \<exists>added. acc' = acc @ added \<and> mset pool' \<subseteq># mset pool \<and> mset pool - mset pool' \<subseteq># mset added"
proof (induction kids arbitrary: pool acc w)
  case Nil
  then show ?case by simp
next
  case (Cons k kids)
  obtain r w1 where rm: "removeComponentWithID pool (getStateId E k) w = (r, w1)"
    by (cases "removeComponentWithID pool (getStateId E k) w")
  show ?case
  proof (cases r)
    case (Inl e)
    with Cons.prems rm show ?thesis by simp
  next
    case (Inr res)
    obtain found pool1 where res: "res = (found, pool1)" by (cases res)
    show ?thesis
    proof (cases found)
      case None
      from rm Inr res None have p1: "pool1 = pool"
        by (auto simp: removeComponentWithID_def Let_def dest: removeLoop_shape_none)
      show ?thesis
      proof (cases "getHandlerForState E w1 k")
        case hNone: None
        with Cons.prems rm Inr res None
        have "childStateLoop E parent kids pool1 acc (jassert False UnknownType w1) = (Inr (pool', acc'), w')"
          by simp
        from Cons.IH [OF this] p1 show ?thesis by simp
      next
        case (Some t)
        obtain r2 w2 where cr: "createNewComponent E t k (Some parent) w1 = (r2, w2)"
          by (cases "createNewComponent E t k (Some parent) w1")
        show ?thesis
        proof (cases r2)
          case (Inl e)
          with Cons.prems rm Inr res None Some cr show ?thesis by simp
        next
          case r2: (Inr c)
          with Cons.prems rm Inr res None Some cr
          have "childStateLoop E parent kids pool1 (acc @ [c]) w2 = (Inr (pool', acc'), w')"
            by simp
          from Cons.IH [OF this] obtain added where
            "acc' = (acc @ [c]) @ added" "mset pool' \<subseteq># mset pool1" "mset pool1 - mset pool' \<subseteq># mset added"
            by blast
          with p1 show ?thesis
            by (intro exI [of _ "c # added"]) (simp add: subseteq_add_mset_right)
        qed
      qed
    next
      case (Some c)
      from rm Inr res Some obtain i where i: "i < length pool" "c = pool ! i"
        "pool1 = take i pool @ drop (Suc i) pool"
        by (auto simp: removeComponentWithID_def Let_def dest: removeLoop_shape)
      then have ms: "mset pool = add_mset c (mset pool1)"
        using mset_remove_nth by blast
      from Cons.prems rm Inr res Some
      have "childStateLoop E parent kids pool1 (acc @ [c]) w1 = (Inr (pool', acc'), w')"
        by simp
      from Cons.IH [OF this] obtain added where a:
        "acc' = (acc @ [c]) @ added" "mset pool' \<subseteq># mset pool1" "mset pool1 - mset pool' \<subseteq># mset added"
        by blast
      have "mset pool - mset pool' = add_mset c (mset pool1 - mset pool')"
        using ms a(2) by (simp add: multiset_eq_iff subseteq_mset_def Suc_diff_le)
      with a ms show ?thesis
        by (intro exI [of _ "c # added"]) (simp add: subseteq_add_mset_right)
    qed
  qed
qed

subsection \<open>registerTypeHandler\<close>



lemma find_append_case:
  "find P (xs @ ys) = (case find P xs of None \<Rightarrow> find P ys | Some x \<Rightarrow> Some x)"
  by (induction xs) auto




subsection \<open>createNewComponent\<close>

lemma lookupC_update:
  "lookupC (h[c := v]) x = (if x = c \<and> c < length h then v else lookupC h x)"
  by (simp add: lookupC_def)

lemma lookupC_Some_less: "lookupC h c = Some obj \<Longrightarrow> c < length h"
  by (simp add: lookupC_def split: if_splits)

lemma lookupC_setComponentID:
  "lookupC (setComponentID c i h) x =
     (if x = c then map_option (\<lambda>obj. obj\<lparr>componentID := i\<rparr>) (lookupC h c) else lookupC h x)"
  by (auto simp: setComponentID_def lookupC_update dest: lookupC_Some_less split: option.splits)

text \<open>
  Claim C8. Whenever \<open>createNewComponent\<close> returns a component, that component's
  identifier is the \<open>id\<close> property of the state node. When the handler keeps its
  contract at this call, returning a live component whose parent is the parent it
  was given, \<open>createNewComponent\<close> returns that component without a failed
  assertion, and its parent is still the given one.
\<close>

theorem createNewComponent_identifier:
  "(\<forall>c w'. createNewComponent E t s parent w = (Inr c, w') \<longrightarrow>
       getComponentID (comps w') c = Some (getStateId E s))
   \<and> (\<forall>c h1 obj.
         addNewComponentFromState E t s parent (comps w) = (Some c, h1) \<and>
         lookupC h1 c = Some obj \<and> parentComponent obj = parent \<longrightarrow>
         (\<exists>w'. createNewComponent E t s parent w = (Inr c, w') \<and>
               assertions w' = assertions w \<and>
               lookupC (comps w') c = Some (obj\<lparr>componentID := getStateId E s\<rparr>) \<and>
               parentComponent (obj\<lparr>componentID := getStateId E s\<rparr>) = parent))"
proof (intro conjI allI impI)
  fix c w'
  assume "createNewComponent E t s parent w = (Inr c, w')"
  then show "getComponentID (comps w') c = Some (getStateId E s)"
    by (auto simp: createNewComponent_def Let_def getComponentID_def lookupC_setComponentID
             split: prod.splits option.splits)
next
  fix c h1 obj
  assume a: "addNewComponentFromState E t s parent (comps w) = (Some c, h1) \<and>
             lookupC h1 c = Some obj \<and> parentComponent obj = parent"
  then show "\<exists>w'. createNewComponent E t s parent w = (Inr c, w') \<and>
               assertions w' = assertions w \<and>
               lookupC (comps w') c = Some (obj\<lparr>componentID := getStateId E s\<rparr>) \<and>
               parentComponent (obj\<lparr>componentID := getStateId E s\<rparr>) = parent"
    by (simp add: createNewComponent_def Let_def lookupC_setComponentID)
qed


theorem createNewComponent_identifier_witness:
  "createNewComponent demoEnv 0 (Some 0) None demoWorld =
     (Inr 0,
      demoWorld\<lparr>comps := [Some \<lparr>componentID = ''root'', parentComponent = None, childComponentList = []\<rparr>],
                trace := [Created 0 (Some 0) None (Some 0)]\<rparr>)
   \<and> getComponentID
        (comps (snd (createNewComponent demoEnv 0 (Some 0) None demoWorld))) 0 =
       Some (getStateId demoEnv (Some 0))"
proof -
  let ?new = "\<lparr>componentID = [], parentComponent = None, childComponentList = []\<rparr>"
  have h: "addNewComponentFromState demoEnv 0 (Some 0) None (comps demoWorld) = (Some 0, [Some ?new]) \<and>
           lookupC [Some ?new] 0 = Some ?new \<and> parentComponent ?new = None"
    by (simp add: demoEnv_def demoWorld_def appendComponent_def lookupC_def)
  note t = createNewComponent_identifier [of demoEnv 0 "Some 0" None demoWorld]
  from t [THEN conjunct2, rule_format, OF h] obtain w' where
    w': "createNewComponent demoEnv 0 (Some 0) None demoWorld = (Inr 0, w')"
    by blast
  from t [THEN conjunct1, rule_format, OF w'] w'
  have 2: "getComponentID (comps (snd (createNewComponent demoEnv 0 (Some 0) None demoWorld))) 0 =
           Some (getStateId demoEnv (Some 0))"
    by simp
  have 1: "createNewComponent demoEnv 0 (Some 0) None demoWorld =
     (Inr 0,
      demoWorld\<lparr>comps := [Some \<lparr>componentID = ''root'', parentComponent = None, childComponentList = []\<rparr>],
                trace := [Created 0 (Some 0) None (Some 0)]\<rparr>)"
    by (simp add: createNewComponent_def demoEnv_def demoWorld_def appendComponent_def lookupC_def
                  setComponentID_def getStateId_def demoTree_def idProperty_def)
  from 1 2 show ?thesis by simp
qed

subsection \<open>findComponentWithID\<close>

lemma find_frame:
  "(findComponentWithID fuel c compId w = Some (r, w') \<longrightarrow> compId \<noteq> [] \<longrightarrow> w' = w) \<and>
   (findInChildren fuel cs compId w = Some (r, w') \<longrightarrow> compId \<noteq> [] \<longrightarrow> w' = w)"
proof (induction fuel arbitrary: c cs w r w')
  case 0
  have "findInChildren 0 cs compId w = Some (r, w') \<longrightarrow> compId \<noteq> [] \<longrightarrow> w' = w" for cs w
    by (induction cs) (auto split: option.splits)
  then show ?case by simp
next
  case (Suc fuel)
  have a: "findComponentWithID (Suc fuel) c compId w = Some (r, w') \<longrightarrow> compId \<noteq> [] \<longrightarrow> w' = w" for c w r w'
    using Suc.IH by (auto simp: Let_def split: option.splits if_splits)
  have "findInChildren (Suc fuel) cs compId w = Some (r, w') \<longrightarrow> compId \<noteq> [] \<longrightarrow> w' = w" for cs w
  proof (induction cs arbitrary: w)
    case Nil
    then show ?case by simp
  next
    case (Cons x xs)
    show ?case
      using a Cons.IH
      by (simp del: findComponentWithID.simps split: option.splits prod.splits sum.splits) blast
  qed
  with a show ?case by blast
qed


lemma find_comps:
  "(findComponentWithID fuel c compId w = Some (r, w') \<longrightarrow> comps w' = comps w \<and> trace w' = trace w) \<and>
   (findInChildren fuel cs compId w = Some (r, w') \<longrightarrow> comps w' = comps w \<and> trace w' = trace w)"
proof (induction fuel arbitrary: c cs w r w')
  case 0
  have "findInChildren 0 cs compId w = Some (r, w') \<longrightarrow> comps w' = comps w \<and> trace w' = trace w" for cs w
    by (induction cs) (auto split: option.splits)
  then show ?case by simp
next
  case (Suc fuel)
  have a: "findComponentWithID (Suc fuel) c compId w = Some (r, w') \<longrightarrow> comps w' = comps w \<and> trace w' = trace w"
    for c w r w'
    using Suc.IH [of _ "jassert (compId \<noteq> []) EmptyComponentID w"]
    by (auto simp: Let_def split: option.splits if_splits)
  have "findInChildren (Suc fuel) cs compId w = Some (r, w') \<longrightarrow> comps w' = comps w \<and> trace w' = trace w" for cs w
  proof (induction cs arbitrary: w)
    case Nil
    then show ?case by simp
  next
    case (Cons x xs)
    show ?case
      using a Cons.IH
      by (simp del: findComponentWithID.simps split: option.splits prod.splits sum.splits) metis
  qed
  with a show ?case by blast
qed

lemma find_Suc:
  "(findComponentWithID fuel c compId w = Some r \<longrightarrow> findComponentWithID (Suc fuel) c compId w = Some r) \<and>
   (findInChildren fuel cs compId w = Some r \<longrightarrow> findInChildren (Suc fuel) cs compId w = Some r)"
proof (induction fuel arbitrary: c cs w r)
  case 0
  have "findInChildren 0 cs compId w = Some r \<longrightarrow> findInChildren (Suc 0) cs compId w = Some r" for cs w
    by (induction cs) (auto split: option.splits)
  then show ?case by simp
next
  case (Suc fuel)
  have a: "findComponentWithID (Suc fuel) c compId w = Some r \<longrightarrow>
           findComponentWithID (Suc (Suc fuel)) c compId w = Some r" for c w r
    using Suc.IH by (auto simp: Let_def split: option.splits if_splits)
  have "findInChildren (Suc fuel) cs compId w = Some r \<longrightarrow>
        findInChildren (Suc (Suc fuel)) cs compId w = Some r" for cs w
  proof (induction cs arbitrary: w)
    case Nil
    then show ?case by simp
  next
    case (Cons x xs)
    show ?case
    proof
      assume f: "findInChildren (Suc fuel) (x # xs) compId w = Some r"
      then obtain r1 where r1: "findComponentWithID (Suc fuel) x compId w = Some r1"
        by (cases "findComponentWithID (Suc fuel) x compId w") (simp_all del: findComponentWithID.simps)
      with a have r2: "findComponentWithID (Suc (Suc fuel)) x compId w = Some r1" by blast
      from f r1 r2 Cons.IH show "findInChildren (Suc (Suc fuel)) (x # xs) compId w = Some r"
        by (simp del: findComponentWithID.simps split: prod.splits sum.splits option.splits)
    qed
  qed
  with a show ?case by blast
qed

lemma find_mono:
  "findComponentWithID fuel c compId w = Some r \<Longrightarrow> fuel \<le> fuel' \<Longrightarrow>
   findComponentWithID fuel' c compId w = Some r"
  by (induction fuel' ) (auto simp: le_Suc_eq find_Suc simp del: findComponentWithID.simps)

lemma find_total:
  assumes rank: "\<forall>c obj x. lookupC h c = Some obj \<and> x \<in> set (childComponentList obj) \<longrightarrow> rank x < rank c"
  shows "(comps w = h \<longrightarrow> rank c < fuel \<longrightarrow> findComponentWithID fuel c compId w \<noteq> None) \<and>
         (comps w = h \<longrightarrow> (\<forall>x\<in>set cs. rank x < fuel) \<longrightarrow> findInChildren fuel cs compId w \<noteq> None)"
proof (induction fuel arbitrary: c cs w)
  case 0
  have "(\<forall>x\<in>set cs. rank x < (0::nat)) \<longrightarrow> findInChildren 0 cs compId w \<noteq> None" for cs w
    by (cases cs) auto
  then show ?case by simp
next
  case (Suc fuel)
  have a: "comps w = h \<longrightarrow> rank c < Suc fuel \<longrightarrow> findComponentWithID (Suc fuel) c compId w \<noteq> None" for c w
  proof (intro impI)
    assume h: "comps w = h" and r: "rank c < Suc fuel"
    show "findComponentWithID (Suc fuel) c compId w \<noteq> None"
    proof (cases "lookupC h c")
      case None
      with h show ?thesis by (simp add: Let_def)
    next
      case (Some obj)
      with rank r have "\<forall>x\<in>set (childComponentList obj). rank x < fuel"
        by (metis less_Suc_eq_le less_le_trans)
      with Suc.IH [of "jassert (compId \<noteq> []) EmptyComponentID w" _ "childComponentList obj"] h
      have "findInChildren fuel (childComponentList obj) compId (jassert (compId \<noteq> []) EmptyComponentID w) \<noteq> None"
        by simp
      with Some h show ?thesis by (simp add: Let_def)
    qed
  qed
  have "comps w = h \<longrightarrow> (\<forall>x\<in>set cs. rank x < Suc fuel) \<longrightarrow> findInChildren (Suc fuel) cs compId w \<noteq> None" for cs w
  proof (induction cs arbitrary: w)
    case Nil
    then show ?case by simp
  next
    case (Cons x xs)
    show ?case
    proof (intro impI)
      assume h: "comps w = h" and r: "\<forall>y\<in>set (x # xs). rank y < Suc fuel"
      with a have "findComponentWithID (Suc fuel) x compId w \<noteq> None"
        by (simp del: findComponentWithID.simps)
      then obtain r1 w1 where r1: "findComponentWithID (Suc fuel) x compId w = Some (r1, w1)"
        by (cases "findComponentWithID (Suc fuel) x compId w") (auto simp del: findComponentWithID.simps)
      with find_comps h have "comps w1 = h" by blast
      with Cons.IH r have "findInChildren (Suc fuel) xs compId w1 \<noteq> None" by simp
      with r1 show "findInChildren (Suc fuel) (x # xs) compId w \<noteq> None"
        by (simp del: findComponentWithID.simps split: sum.splits option.splits)
    qed
  qed
  with a show ?case by blast
qed

subsection \<open>updateComponent\<close>

lemma getManagedComponent_created:
  "component w = Some root \<Longrightarrow> getManagedComponent E w = (Inr (Some root), w)"
  by (simp add: getManagedComponent_def)

lemma createNewComponent_frame:
  "createNewComponent E t s p w = (r, w') \<Longrightarrow>
   types w' = types w \<and> handlerObjects w' = handlerObjects w \<and> state w' = state w \<and>
   component w' = component w \<and>
   trace w' = trace w @ [Created t s p (fst (addNewComponentFromState E t s p (comps w)))]"
  by (auto simp: createNewComponent_def Let_def jassert_def split: prod.splits option.splits if_splits)

lemma createComponent_frame:
  "createComponent E w = (r, w') \<Longrightarrow>
   types w' = types w \<and> handlerObjects w' = handlerObjects w \<and> state w' = state w \<and>
   component w' = component w"
  by (auto simp: createComponent_def Let_def jassert_def getHandlerForState_def
           split: prod.splits option.splits if_splits sum.splits dest: createNewComponent_frame)

lemma getManagedComponent_frame:
  "getManagedComponent E w = (r, w') \<Longrightarrow>
   types w' = types w \<and> handlerObjects w' = handlerObjects w \<and> state w' = state w"
  by (auto simp: getManagedComponent_def split: prod.splits option.splits sum.splits
           dest: createComponent_frame)

lemma getManagedComponent_result:
  "getManagedComponent E w = (Inr (Some root), w') \<Longrightarrow> component w' = Some root"
  by (auto simp: getManagedComponent_def split: prod.splits option.splits sum.splits)

lemma getHandlerForState_cong:
  "types w' = types w \<Longrightarrow> handlerObjects w' = handlerObjects w \<Longrightarrow>
   getHandlerForState E w' s = getHandlerForState E w s"
  by (simp add: getHandlerForState_def)

text \<open>The first thing \<open>updateComponent\<close> does is to make sure of the root.\<close>

lemma updateComponent_managed:
  assumes "getManagedComponent E w = (Inr (Some root), w0)"
  shows "updateComponent (Suc fuel) E s w = updateComponent (Suc fuel) E s w0"
proof -
  from assms have "component w0 = Some root" by (rule getManagedComponent_result)
  then have "getManagedComponent E w0 = (Inr (Some root), w0)" by (rule getManagedComponent_created)
  with assms show ?thesis by simp
qed

lemma getManagedComponent_uncreated_unknown:
  "component w = None \<Longrightarrow> getHandlerForState E w (state w) = None \<Longrightarrow>
   getManagedComponent E w =
     (Inr None, w\<lparr>assertions := assertions w @ (if types w = [] then [NoTypesRegistered] else []) @ [UnknownType]\<rparr>)"
  by (simp add: getManagedComponent_def createComponent_def Let_def jassert_def getHandlerForState_def)

lemma getManagedComponent_uncreated_known:
  "component w = None \<Longrightarrow> getHandlerForState E w (state w) = Some t \<Longrightarrow>
   getManagedComponent E w = (r, w') \<Longrightarrow>
   trace w' = trace w @ [Created t (state w) None (fst (addNewComponentFromState E t (state w) None (comps w)))]"
  by (auto simp: getManagedComponent_def createComponent_def Let_def jassert_def getHandlerForState_def
           split: prod.splits sum.splits if_splits dest!: createNewComponent_frame)

lemma updateComponent_walk:
  "component w = Some root \<Longrightarrow> \<not> isMapped E w s \<Longrightarrow>
   updateComponent (Suc fuel) E s w =
     (if isValid (getParent E s) then updateComponent fuel E (getParent E s) w else Some (Inr (), w))"
  by (simp add: getManagedComponent_created isMapped_def Let_def)

lemma updateComponent_direct:
  "component w = Some root \<Longrightarrow> getHandlerForState E w s = Some t \<Longrightarrow> getStateId E s \<noteq> [] \<Longrightarrow>
   updateComponent (Suc fuel) E s w =
     (case findComponentWithID fuel root (getStateId E s) w of
        None \<Rightarrow> None
      | Some (Inl e, w2) \<Rightarrow> Some (Inl e, w2)
      | Some (Inr None, w2) \<Rightarrow> Some (Inr (), w2)
      | Some (Inr (Some changedComp), w2) \<Rightarrow>
          Some (Inr (),
                w2\<lparr>comps := updateComponentFromState E t changedComp s (comps w2),
                   trace := trace w2 @ [Updated t changedComp s]\<rparr>))"
  by (auto simp: getManagedComponent_created Let_def simp del: findComponentWithID.simps
           split: option.splits sum.splits prod.splits)

lemma updateComponent_trace:
  "updateComponent fuel E s w = Some (r, w') \<Longrightarrow> component w \<noteq> None \<Longrightarrow> \<exists>rest. trace w' = trace w @ rest"
proof (induction fuel arbitrary: s)
  case 0
  then show ?case by simp
next
  case (Suc fuel)
  from Suc.prems obtain root where root: "component w = Some root" by blast
  show ?case
  proof (cases "isMapped E w s")
    case False
    from Suc.prems(1) have "(if isValid (getParent E s) then updateComponent fuel E (getParent E s) w
                             else Some (Inr (), w)) = Some (r, w')"
      by (simp only: updateComponent_walk [OF root False])
    with Suc.IH Suc.prems(2) show ?thesis by (auto split: if_splits)
  next
    case True
    then obtain t where t: "getHandlerForState E w s = Some t" and uid: "getStateId E s \<noteq> []"
      by (auto simp: isMapped_def)
    obtain r2 w2 where f: "findComponentWithID fuel root (getStateId E s) w = Some (r2, w2)"
      using Suc.prems(1) by (cases "findComponentWithID fuel root (getStateId E s) w")
        (auto simp only: updateComponent_direct [OF root t uid] option.case)
    with find_comps have tr: "trace w2 = trace w" by blast
    from Suc.prems(1) have "(case Some (r2, w2) of
        None \<Rightarrow> None
      | Some (Inl e, w2) \<Rightarrow> Some (Inl e, w2)
      | Some (Inr None, w2) \<Rightarrow> Some (Inr (), w2)
      | Some (Inr (Some changedComp), w2) \<Rightarrow>
          Some (Inr (),
                w2\<lparr>comps := updateComponentFromState E t changedComp s (comps w2),
                   trace := trace w2 @ [Updated t changedComp s]\<rparr>)) = Some (r, w')"
      by (simp only: updateComponent_direct [OF root t uid] f)
    with tr show ?thesis
      by (auto split: sum.splits option.splits)
  qed
qed


lemma updateComponent_total:
  assumes depth: "\<forall>n p. vtParent (valueTrees E n) = Some p \<longrightarrow> depth p < depth n"
      and rank: "\<forall>c obj x. lookupC h c = Some obj \<and> x \<in> set (childComponentList obj) \<longrightarrow> rank x < rank c"
      and root: "component w = Some root"
      and h: "comps w = h"
  shows "(case s of None \<Rightarrow> 0 | Some n \<Rightarrow> depth n) + rank root + 1 < fuel \<Longrightarrow>
         updateComponent fuel E s w \<noteq> None"
proof (induction fuel arbitrary: s)
  case 0
  then show ?case by simp
next
  case (Suc fuel)
  show ?case
  proof (cases "isMapped E w s")
    case False
    show ?thesis
    proof (cases "isValid (getParent E s)")
      case True
      then obtain n p where s: "s = Some n" and p: "vtParent (valueTrees E n) = Some p"
        by (auto simp: isValid_def getParent_def split: option.splits)
      with depth have "depth p < depth n" by blast
      with Suc.prems s have "(case getParent E s of None \<Rightarrow> 0 | Some n \<Rightarrow> depth n) + rank root + 1 < fuel"
        using p by (simp add: getParent_def)
      from Suc.IH [OF this] True show ?thesis
        by (simp add: updateComponent_walk [OF root False] del: updateComponent.simps)
    next
      case v: False
      then show ?thesis
        by (simp add: updateComponent_walk [OF root False] del: updateComponent.simps)
    qed
  next
    case True
    then obtain t where t: "getHandlerForState E w s = Some t" and uid: "getStateId E s \<noteq> []"
      by (auto simp: isMapped_def)
    from Suc.prems have "rank root < fuel" by simp
    with find_total [OF rank] h have "findComponentWithID fuel root (getStateId E s) w \<noteq> None"
      by blast
    then obtain r w2 where "findComponentWithID fuel root (getStateId E s) w = Some (r, w2)"
      by (cases "findComponentWithID fuel root (getStateId E s) w") (auto simp del: findComponentWithID.simps)
    then show ?thesis
      by (simp only: updateComponent_direct [OF root t uid]) (simp split: sum.splits option.splits)
  qed
qed

lemma updateComponent_component:
  "updateComponent fuel E s w = Some (r, w') \<Longrightarrow> component w = Some root \<Longrightarrow>
   component w' = Some root \<and> assertions w' = assertions w \<and> types w' = types w"
proof (induction fuel arbitrary: s)
  case 0
  then show ?case by simp
next
  case (Suc fuel)
  note root = Suc.prems(2)
  show ?case
  proof (cases "isMapped E w s")
    case False
    from Suc.prems(1) have "(if isValid (getParent E s) then updateComponent fuel E (getParent E s) w
                             else Some (Inr (), w)) = Some (r, w')"
      by (simp only: updateComponent_walk [OF root False])
    with Suc.IH root show ?thesis by (auto split: if_splits)
  next
    case True
    then obtain t where t: "getHandlerForState E w s = Some t" and uid: "getStateId E s \<noteq> []"
      by (auto simp: isMapped_def)
    obtain r2 w2 where f: "findComponentWithID fuel root (getStateId E s) w = Some (r2, w2)"
      using Suc.prems(1) by (cases "findComponentWithID fuel root (getStateId E s) w")
        (auto simp only: updateComponent_direct [OF root t uid] option.case)
    with find_frame uid have w2: "w2 = w" by blast
    from Suc.prems(1) have "(case Some (r2, w2) of
        None \<Rightarrow> None
      | Some (Inl e, w2) \<Rightarrow> Some (Inl e, w2)
      | Some (Inr None, w2) \<Rightarrow> Some (Inr (), w2)
      | Some (Inr (Some changedComp), w2) \<Rightarrow>
          Some (Inr (),
                w2\<lparr>comps := updateComponentFromState E t changedComp s (comps w2),
                   trace := trace w2 @ [Updated t changedComp s]\<rparr>)) = Some (r, w')"
      by (simp only: updateComponent_direct [OF root t uid] f)
    with w2 root show ?thesis
      by (auto split: sum.splits option.splits)
  qed
qed

lemma getHandlerForState_types: "getHandlerForState E w s = Some t \<Longrightarrow> types w \<noteq> []"
  by (auto simp: getHandlerForState_def)

text \<open>
  Claim C3, as the code has it. The five listener callbacks all call
  \<open>updateComponent\<close>, which starts with \<open>getManagedComponent\<close>, and that creates the
  root when there is none. So of a notification that arrives before the root
  exists:

  \<^item> when the type of the root state has no registered handler, the root stays
    uncreated and nothing is created, deleted or updated: two assertions at most
    fail and nothing else changes;
  \<^item> when the type has a handler and the handler returns null, or a pointer to
    nothing, the handler has been called, the root stays uncreated and the call
    stops at the dereference;
  \<^item> when the type has a handler and the handler returns a component, that
    component is made the root, with the identifier of the root state, before the
    notification is looked at; the notification is then treated as on a builder
    whose root exists, so it returns whenever that does, and in whatever it returns
    the root is this component and the trace starts with its creation.
\<close>

theorem updateComponent_root_not_created:
  assumes none: "component w = None"
  shows "(getHandlerForState E w (state w) = None \<longrightarrow>
            updateComponent (Suc fuel) E s w =
              Some (Inr (),
                    w\<lparr>assertions := assertions w
                         @ (if types w = [] then [NoTypesRegistered] else []) @ [UnknownType]\<rparr>))
       \<and> (\<forall>t h1. getHandlerForState E w (state w) = Some t \<and>
                 addNewComponentFromState E t (state w) None (comps w) = (None, h1) \<longrightarrow>
            updateComponent (Suc fuel) E s w =
              Some (Inl NullPointer,
                    w\<lparr>comps := h1,
                       assertions := assertions w @ [BadNewComponent],
                       trace := trace w @ [Created t (state w) None None]\<rparr>))
       \<and> (\<forall>t c h1. getHandlerForState E w (state w) = Some t \<and>
                 addNewComponentFromState E t (state w) None (comps w) = (Some c, h1) \<and>
                 \<not> isLive h1 c \<longrightarrow>
            updateComponent (Suc fuel) E s w =
              Some (Inl InvalidPointer,
                    w\<lparr>comps := h1, trace := trace w @ [Created t (state w) None (Some c)]\<rparr>))
       \<and> (\<forall>t c h1 obj. getHandlerForState E w (state w) = Some t \<and>
                 addNewComponentFromState E t (state w) None (comps w) = (Some c, h1) \<and>
                 lookupC h1 c = Some obj \<longrightarrow>
            (\<exists>w0 :: World.
                getManagedComponent E w = (Inr (Some c), w0) \<and>
                w0 = w\<lparr>comps := setComponentID c (getStateId E (state w)) h1,
                       component := Some c,
                       assertions := assertions w
                          @ (if parentComponent obj = None then [] else [BadNewComponent]),
                       trace := trace w @ [Created t (state w) None (Some c)]\<rparr> \<and>
                updateComponent (Suc fuel) E s w = updateComponent (Suc fuel) E s w0 \<and>
                ((\<forall>n p. vtParent (valueTrees E n) = Some p \<longrightarrow> depth p < depth n) \<and>
                 (\<forall>x xo y. lookupC (comps w0) x = Some xo \<and> y \<in> set (childComponentList xo) \<longrightarrow>
                            rank y < rank x) \<and>
                 (case s of None \<Rightarrow> 0 | Some n \<Rightarrow> depth n) + rank c + 1 < Suc fuel \<longrightarrow>
                   (\<exists>r w'. updateComponent (Suc fuel) E s w = Some (r, w'))) \<and>
                (\<forall>r w'. updateComponent (Suc fuel) E s w = Some (r, w') \<longrightarrow>
                   component w' = Some c \<and> assertions w' = assertions w0 \<and>
                   (\<exists>rest. trace w' = trace w @ Created t (state w) None (Some c) # rest))))"
proof (intro conjI allI impI)
  assume "getHandlerForState E w (state w) = None"
  with none show "updateComponent (Suc fuel) E s w =
              Some (Inr (),
                    w\<lparr>assertions := assertions w
                         @ (if types w = [] then [NoTypesRegistered] else []) @ [UnknownType]\<rparr>)"
    by (simp add: getManagedComponent_uncreated_unknown)
next
  fix t h1
  assume a: "getHandlerForState E w (state w) = Some t \<and>
             addNewComponentFromState E t (state w) None (comps w) = (None, h1)"
  then have ne: "types w \<noteq> []" by (blast dest: getHandlerForState_types)
  have "getManagedComponent E w =
          (Inl NullPointer,
           w\<lparr>comps := h1, assertions := assertions w @ [BadNewComponent],
             trace := trace w @ [Created t (state w) None None]\<rparr>)"
    using none a ne
    by (simp add: getManagedComponent_def createComponent_def createNewComponent_def jassert_def)
  then show "updateComponent (Suc fuel) E s w =
              Some (Inl NullPointer,
                    w\<lparr>comps := h1,
                       assertions := assertions w @ [BadNewComponent],
                       trace := trace w @ [Created t (state w) None None]\<rparr>)"
    by simp
next
  fix t c h1
  assume a: "getHandlerForState E w (state w) = Some t \<and>
             addNewComponentFromState E t (state w) None (comps w) = (Some c, h1) \<and> \<not> isLive h1 c"
  then have ne: "types w \<noteq> []" by (blast dest: getHandlerForState_types)
  have "getManagedComponent E w =
          (Inl InvalidPointer,
           w\<lparr>comps := h1, trace := trace w @ [Created t (state w) None (Some c)]\<rparr>)"
    using none a ne
    by (simp add: getManagedComponent_def createComponent_def createNewComponent_def jassert_def
                  isLive_def)
  then show "updateComponent (Suc fuel) E s w =
              Some (Inl InvalidPointer,
                    w\<lparr>comps := h1, trace := trace w @ [Created t (state w) None (Some c)]\<rparr>)"
    by simp
next
  fix t c h1 obj
  assume a: "getHandlerForState E w (state w) = Some t \<and>
             addNewComponentFromState E t (state w) None (comps w) = (Some c, h1) \<and>
             lookupC h1 c = Some obj"
  then have ne: "types w \<noteq> []" by (blast dest: getHandlerForState_types)
  let ?e = "Created t (state w) None (Some c)"
  let ?w0 = "w\<lparr>comps := setComponentID c (getStateId E (state w)) h1,
                       component := Some c,
                       assertions := assertions w
                          @ (if parentComponent obj = None then [] else [BadNewComponent]),
                       trace := trace w @ [?e]\<rparr>"
  have m: "getManagedComponent E w = (Inr (Some c), ?w0)"
    using none a ne
    by (simp add: getManagedComponent_def createComponent_def createNewComponent_def jassert_def
                  Let_def)
  have root: "component ?w0 = Some c" by simp
  have eq: "updateComponent (Suc fuel) E s w = updateComponent (Suc fuel) E s ?w0"
    using m by (rule updateComponent_managed)
  have tot: "(\<forall>n p. vtParent (valueTrees E n) = Some p \<longrightarrow> depth p < depth n) \<and>
             (\<forall>x xo y. lookupC (comps ?w0) x = Some xo \<and> y \<in> set (childComponentList xo) \<longrightarrow>
                        rank y < rank x) \<and>
             (case s of None \<Rightarrow> 0 | Some n \<Rightarrow> depth n) + rank c + 1 < Suc fuel \<longrightarrow>
             (\<exists>r w'. updateComponent (Suc fuel) E s w = Some (r, w'))"
  proof
    assume b: "(\<forall>n p. vtParent (valueTrees E n) = Some p \<longrightarrow> depth p < depth n) \<and>
             (\<forall>x xo y. lookupC (comps ?w0) x = Some xo \<and> y \<in> set (childComponentList xo) \<longrightarrow>
                        rank y < rank x) \<and>
             (case s of None \<Rightarrow> 0 | Some n \<Rightarrow> depth n) + rank c + 1 < Suc fuel"
    then have d: "\<forall>n p. vtParent (valueTrees E n) = Some p \<longrightarrow> depth p < depth n"
      and r: "\<forall>x xo y. lookupC (comps ?w0) x = Some xo \<and> y \<in> set (childComponentList xo) \<longrightarrow>
                        rank y < rank x"
      and f: "(case s of None \<Rightarrow> 0 | Some n \<Rightarrow> depth n) + rank c + 1 < Suc fuel"
      by blast+
    from updateComponent_total [OF d r root refl f]
    have "updateComponent (Suc fuel) E s ?w0 \<noteq> None" .
    then show "\<exists>r w'. updateComponent (Suc fuel) E s w = Some (r, w')"
      by (simp only: eq) auto
  qed
  have part: "\<forall>r w'. updateComponent (Suc fuel) E s w = Some (r, w') \<longrightarrow>
                component w' = Some c \<and> assertions w' = assertions ?w0 \<and>
                (\<exists>rest. trace w' = trace w @ ?e # rest)"
  proof (intro allI impI)
    fix r w'
    assume "updateComponent (Suc fuel) E s w = Some (r, w')"
    then have u: "updateComponent (Suc fuel) E s ?w0 = Some (r, w')" by (simp only: eq)
    from updateComponent_component [OF u root]
    have 1: "component w' = Some c \<and> assertions w' = assertions ?w0" by blast
    from root have "component ?w0 \<noteq> None" by simp
    from updateComponent_trace [OF u this] obtain rest where "trace w' = trace ?w0 @ rest" by blast
    then have "trace w' = trace w @ ?e # rest" by simp
    with 1 show "component w' = Some c \<and> assertions w' = assertions ?w0 \<and>
                (\<exists>rest. trace w' = trace w @ ?e # rest)" by blast
  qed
  show "\<exists>w0 :: World.
                getManagedComponent E w = (Inr (Some c), w0) \<and>
                w0 = w\<lparr>comps := setComponentID c (getStateId E (state w)) h1,
                       component := Some c,
                       assertions := assertions w
                          @ (if parentComponent obj = None then [] else [BadNewComponent]),
                       trace := trace w @ [Created t (state w) None (Some c)]\<rparr> \<and>
                updateComponent (Suc fuel) E s w = updateComponent (Suc fuel) E s w0 \<and>
                ((\<forall>n p. vtParent (valueTrees E n) = Some p \<longrightarrow> depth p < depth n) \<and>
                 (\<forall>x xo y. lookupC (comps w0) x = Some xo \<and> y \<in> set (childComponentList xo) \<longrightarrow>
                            rank y < rank x) \<and>
                 (case s of None \<Rightarrow> 0 | Some n \<Rightarrow> depth n) + rank c + 1 < Suc fuel \<longrightarrow>
                   (\<exists>r w'. updateComponent (Suc fuel) E s w = Some (r, w'))) \<and>
                (\<forall>r w'. updateComponent (Suc fuel) E s w = Some (r, w') \<longrightarrow>
                   component w' = Some c \<and> assertions w' = assertions w0 \<and>
                   (\<exists>rest. trace w' = trace w @ Created t (state w) None (Some c) # rest))"
    using m eq tot part by (intro exI [of _ ?w0] conjI refl)
qed


text \<open>
  The claim as stated fails: with handlers for panels and buttons registered and
  nothing built, a property change on the button "b1" builds the root.
\<close>

theorem updateComponent_creates_root:
  "component demoWorld = None \<and>
   valueTreePropertyChanged 3 demoEnv (Some 1) ''text'' demoWorld =
     Some (Inr (),
           demoWorld\<lparr>comps := [Some \<lparr>componentID = ''root'', parentComponent = None,
                                      childComponentList = []\<rparr>],
                     component := Some 0,
                     trace := [Created 0 (Some 0) None (Some 0)]\<rparr>)"
  by (simp add: valueTreePropertyChanged_def numeral_3_eq_3 getManagedComponent_def
      createComponent_def createNewComponent_def getHandlerForState_def getType_def getStateId_def
      demoWorld_def demoEnv_def demoTree_def demoHandlers_def appendComponent_def lookupC_def
      setComponentID_def idProperty_def jassert_def Let_def)

theorem updateComponent_root_not_created_witness:
  "updateComponent (Suc 0) demoEnv (Some 1) (demoWorld\<lparr>types := [1]\<rparr>) =
     Some (Inr (), demoWorld\<lparr>types := [1], assertions := [UnknownType]\<rparr>)
   \<and> updateComponent 3 (demoEnv\<lparr>addNewComponentFromState := \<lambda>t s p h. (None, h)\<rparr>) (Some 1) demoWorld =
       Some (Inl NullPointer,
             demoWorld\<lparr>assertions := [BadNewComponent], trace := [Created 0 (Some 0) None None]\<rparr>)
   \<and> updateComponent 3 (demoEnv\<lparr>addNewComponentFromState := \<lambda>t s p h. (Some 5, h)\<rparr>) (Some 1) demoWorld =
       Some (Inl InvalidPointer, demoWorld\<lparr>trace := [Created 0 (Some 0) None (Some 5)]\<rparr>)
   \<and> (\<exists>r w'. updateComponent 3 demoEnv (Some 1) demoWorld = Some (r, w') \<and>
             component w' = Some 0 \<and> assertions w' = [] \<and>
             (\<exists>rest. trace w' = Created 0 (Some 0) None (Some 0) # rest))"
proof -
  let ?w = "demoWorld\<lparr>types := [1]\<rparr>"
  have n: "component ?w = None" by (simp add: demoWorld_def)
  have u: "getHandlerForState demoEnv ?w (state ?w) = None"
    by (simp add: getHandlerForState_def demoWorld_def demoEnv_def getType_def demoTree_def demoHandlers_def)
  from updateComponent_root_not_created [OF n, THEN conjunct1, rule_format, OF u, of 0 "Some 1"]
  have 1: "updateComponent (Suc 0) demoEnv (Some 1) ?w =
             Some (Inr (), demoWorld\<lparr>types := [1], assertions := [UnknownType]\<rparr>)"
    by (simp add: demoWorld_def)
  have n2: "component demoWorld = None" by (simp add: demoWorld_def)
  let ?E0 = "demoEnv\<lparr>addNewComponentFromState := \<lambda>t s p h. (None, h)\<rparr>"
  have k0: "getHandlerForState ?E0 demoWorld (state demoWorld) = Some 0 \<and>
            addNewComponentFromState ?E0 0 (state demoWorld) None (comps demoWorld) = (None, [])"
    by (simp add: getHandlerForState_def demoWorld_def demoEnv_def getType_def demoTree_def demoHandlers_def)
  from updateComponent_root_not_created [OF n2, THEN conjunct2, THEN conjunct1, rule_format, OF k0,
         of 2 "Some 1"]
  have 2: "updateComponent 3 ?E0 (Some 1) demoWorld =
       Some (Inl NullPointer,
             demoWorld\<lparr>assertions := [BadNewComponent], trace := [Created 0 (Some 0) None None]\<rparr>)"
    by (simp add: demoWorld_def numeral_3_eq_3 del: updateComponent.simps)
  let ?E5 = "demoEnv\<lparr>addNewComponentFromState := \<lambda>t s p h. (Some 5, h)\<rparr>"
  have k5: "getHandlerForState ?E5 demoWorld (state demoWorld) = Some 0 \<and>
            addNewComponentFromState ?E5 0 (state demoWorld) None (comps demoWorld) = (Some 5, []) \<and>
            \<not> isLive [] 5"
    by (simp add: getHandlerForState_def demoWorld_def demoEnv_def getType_def demoTree_def
                  demoHandlers_def isLive_def lookupC_def)
  from updateComponent_root_not_created [OF n2, THEN conjunct2, THEN conjunct2, THEN conjunct1,
         rule_format, OF k5, of 2 "Some 1"]
  have 3: "updateComponent 3 ?E5 (Some 1) demoWorld =
       Some (Inl InvalidPointer, demoWorld\<lparr>trace := [Created 0 (Some 0) None (Some 5)]\<rparr>)"
    by (simp add: demoWorld_def numeral_3_eq_3 del: updateComponent.simps)
  let ?obj = "\<lparr>componentID = [], parentComponent = None, childComponentList = []\<rparr>"
  have k: "getHandlerForState demoEnv demoWorld (state demoWorld) = Some 0 \<and>
           addNewComponentFromState demoEnv 0 (state demoWorld) None (comps demoWorld) = (Some 0, [Some ?obj]) \<and>
           lookupC [Some ?obj] 0 = Some ?obj"
    by (simp add: getHandlerForState_def demoWorld_def demoEnv_def getType_def demoTree_def
                  demoHandlers_def appendComponent_def lookupC_def)
  from updateComponent_root_not_created [OF n2, THEN conjunct2, THEN conjunct2, THEN conjunct2,
         rule_format, OF k, of 2 "Some 1" demoDepth "\<lambda>x. 0"]
  obtain w0 :: World where
        w0: "w0 = demoWorld\<lparr>comps := setComponentID 0 (getStateId demoEnv (state demoWorld)) [Some ?obj],
                       component := Some 0,
                       assertions := assertions demoWorld
                          @ (if parentComponent ?obj = None then [] else [BadNewComponent]),
                       trace := trace demoWorld @ [Created 0 (state demoWorld) None (Some 0)]\<rparr>"
    and tot: "(\<forall>n p. vtParent (valueTrees demoEnv n) = Some p \<longrightarrow> demoDepth p < demoDepth n) \<and>
                 (\<forall>x xo y. lookupC (comps w0) x = Some xo \<and> y \<in> set (childComponentList xo) \<longrightarrow>
                            (0::nat) < 0) \<and>
                 (case Some 1 of None \<Rightarrow> 0 | Some n \<Rightarrow> demoDepth n) + 0 + 1 < Suc 2 \<longrightarrow>
                   (\<exists>r w'. updateComponent (Suc 2) demoEnv (Some 1) demoWorld = Some (r, w'))"
    and part: "\<forall>r w'. updateComponent (Suc 2) demoEnv (Some 1) demoWorld = Some (r, w') \<longrightarrow>
                   component w' = Some 0 \<and> assertions w' = assertions w0 \<and>
                   (\<exists>rest. trace w' = trace demoWorld @ Created 0 (state demoWorld) None (Some 0) # rest)"
    by (elim exE conjE) (rule that)
  have c0: "comps w0 = [Some (?obj\<lparr>componentID := ''root''\<rparr>)]"
    by (simp add: w0 setComponentID_def lookupC_def getStateId_def demoWorld_def demoEnv_def
                  demoTree_def idProperty_def)
  have "\<forall>x xo y. lookupC (comps w0) x = Some xo \<and> y \<in> set (childComponentList xo) \<longrightarrow> (0::nat) < 0"
    by (auto simp: c0 lookupC_def nth_Cons split: if_splits nat.splits)
  moreover have "\<forall>n p. vtParent (valueTrees demoEnv n) = Some p \<longrightarrow> demoDepth p < demoDepth n"
    by (simp add: demoEnv_def demoTree_def demoDepth_def)
  moreover have "(case Some 1 of None \<Rightarrow> 0 | Some n \<Rightarrow> demoDepth n) + 0 + 1 < Suc 2"
    by (simp add: demoDepth_def)
  ultimately obtain r w' where e: "updateComponent (Suc 2) demoEnv (Some 1) demoWorld = Some (r, w')"
    using tot by blast
  with part have "component w' = Some 0 \<and> assertions w' = assertions w0 \<and>
                   (\<exists>rest. trace w' = trace demoWorld @ Created 0 (state demoWorld) None (Some 0) # rest)"
    by blast
  then have "component w' = Some 0 \<and> assertions w' = [] \<and>
             (\<exists>rest. trace w' = Created 0 (Some 0) None (Some 0) # rest)"
    by (simp add: w0 demoWorld_def)
  with e have 4: "\<exists>r w'. updateComponent 3 demoEnv (Some 1) demoWorld = Some (r, w') \<and>
             component w' = Some 0 \<and> assertions w' = [] \<and>
             (\<exists>rest. trace w' = Created 0 (Some 0) None (Some 0) # rest)"
    unfolding numeral_3_eq_3 One_nat_def numeral_2_eq_2 by blast
  from 1 2 3 4 show ?thesis by (intro conjI)
qed

lemma find_hasID:
  "(findComponentWithID fuel c compId w = Some (Inr (Some x), w') \<longrightarrow> hasID (comps w) compId x) \<and>
   (findInChildren fuel cs compId w = Some (Inr (Some x), w') \<longrightarrow> hasID (comps w) compId x)"
proof (induction fuel arbitrary: c cs w w')
  case 0
  have "findInChildren 0 cs compId w = Some (Inr (Some x), w') \<longrightarrow> hasID (comps w) compId x" for cs w
    by (induction cs) (auto split: option.splits)
  then show ?case by simp
next
  case (Suc fuel)
  have a: "findComponentWithID (Suc fuel) c compId w = Some (Inr (Some x), w') \<longrightarrow> hasID (comps w) compId x"
    for c w w'
    using Suc.IH [of _ "jassert (compId \<noteq> []) EmptyComponentID w"]
    by (auto simp: Let_def hasID_def split: option.splits if_splits)
  have "findInChildren (Suc fuel) cs compId w = Some (Inr (Some x), w') \<longrightarrow> hasID (comps w) compId x" for cs w
  proof (induction cs arbitrary: w)
    case Nil
    then show ?case by simp
  next
    case (Cons y ys)
    show ?case
    proof
      assume f: "findInChildren (Suc fuel) (y # ys) compId w = Some (Inr (Some x), w')"
      then obtain r1 w1 where r1: "findComponentWithID (Suc fuel) y compId w = Some (r1, w1)"
        by (cases "findComponentWithID (Suc fuel) y compId w") (auto simp del: findComponentWithID.simps)
      with find_comps have c1: "comps w1 = comps w" by blast
      show "hasID (comps w) compId x"
      proof (cases r1)
        case (Inl e)
        with f r1 show ?thesis by (simp del: findComponentWithID.simps)
      next
        case (Inr o1)
        show ?thesis
        proof (cases o1)
          case None
          with f r1 Inr have "findInChildren (Suc fuel) ys compId w1 = Some (Inr (Some x), w')"
            by (simp del: findComponentWithID.simps)
          with Cons.IH c1 show ?thesis by metis
        next
          case (Some z)
          with f r1 Inr have "findComponentWithID (Suc fuel) y compId w = Some (Inr (Some x), w')"
            by (simp del: findComponentWithID.simps)
          with a show ?thesis by blast
        qed
      qed
    qed
  qed
  with a show ?case by blast
qed

text \<open>
  With a rank that falls along every child link, a bound above the rank of the
  component is as good as any other: the list is the whole tree under it.
\<close>

lemma preorder_fuel:
  assumes rank: "\<forall>c obj x. lookupC h c = Some obj \<and> x \<in> set (childComponentList obj) \<longrightarrow> rank x < rank c"
  shows "rank c < m \<Longrightarrow> rank c < m' \<Longrightarrow> preorder m h c = preorder m' h c"
proof (induction m arbitrary: c m')
  case 0
  then show ?case by simp
next
  case (Suc m)
  from Suc.prems(2) obtain k where k: "m' = Suc k" by (cases m') auto
  have e: "map (preorder m h) (childrenOf h c) = map (preorder k h) (childrenOf h c)"
  proof (rule map_cong [OF refl])
    fix x assume x: "x \<in> set (childrenOf h c)"
    then obtain obj where "lookupC h c = Some obj" "x \<in> set (childComponentList obj)"
      by (cases "lookupC h c") (simp_all add: childrenOf_def)
    with rank have "rank x < rank c" by blast
    with Suc.prems k have "rank x < m" "rank x < k" by simp_all
    then show "preorder m h x = preorder k h x" by (rule Suc.IH)
  qed
  show ?case unfolding k preorder.simps e by (rule refl)
qed

text \<open>
  The search of \<open>findComponentWithID\<close> is the search of the spec: on a tree whose
  components are live it returns the first component, in depth-first order, that
  carries the identifier, and null when none does.
\<close>

lemma find_spec:
  assumes rank: "\<forall>c obj x. lookupC h c = Some obj \<and> x \<in> set (childComponentList obj) \<longrightarrow> rank x < rank c"
      and uid: "compId \<noteq> []"
  shows "(comps w = h \<longrightarrow> rank c < fuel \<longrightarrow> (\<forall>x\<in>set (preorder fuel h c). isLive h x) \<longrightarrow>
            findComponentWithID fuel c compId w =
              Some (Inr (find (hasID h compId) (preorder fuel h c)), w)) \<and>
         (comps w = h \<longrightarrow> (\<forall>x\<in>set cs. rank x < fuel) \<longrightarrow>
            (\<forall>x\<in>set (concat (map (preorder fuel h) cs)). isLive h x) \<longrightarrow>
            findInChildren fuel cs compId w =
              Some (Inr (find (hasID h compId) (concat (map (preorder fuel h) cs))), w))"
proof (induction fuel arbitrary: c cs)
  case 0
  have "(\<forall>x\<in>set cs. rank x < (0::nat)) \<longrightarrow>
        findInChildren 0 cs compId w = Some (Inr (find (hasID h compId) (concat (map (preorder 0 h) cs))), w)"
    for cs
    by (cases cs) auto
  then show ?case by simp
next
  case (Suc fuel)
  have a: "findComponentWithID (Suc fuel) c compId w =
             Some (Inr (find (hasID h compId) (preorder (Suc fuel) h c)), w)"
    if h: "comps w = h" and r: "rank c < Suc fuel"
       and l: "\<forall>x\<in>set (preorder (Suc fuel) h c). isLive h x" for c
  proof -
    from l have "isLive h c" by simp
    then obtain obj where obj: "lookupC h c = Some obj" by (auto simp: isLive_def)
    then have ch: "childrenOf h c = childComponentList obj" by (simp add: childrenOf_def)
    show ?thesis
    proof (cases "componentID obj = compId")
      case True
      with obj h uid show ?thesis by (simp add: hasID_def)
    next
      case False
      from rank obj r have 1: "\<forall>x\<in>set (childComponentList obj). rank x < fuel" by fastforce
      from l ch have 2: "\<forall>x\<in>set (concat (map (preorder fuel h) (childComponentList obj))). isLive h x"
        by simp
      from Suc.IH [of c "childComponentList obj"] h 1 2
      have "findInChildren fuel (childComponentList obj) compId w =
              Some (Inr (find (hasID h compId) (concat (map (preorder fuel h) (childComponentList obj)))), w)"
        by blast
      with obj h uid False ch show ?thesis by (simp add: hasID_def)
    qed
  qed
  have b: "comps w = h \<longrightarrow> (\<forall>x\<in>set cs. rank x < Suc fuel) \<longrightarrow>
            (\<forall>x\<in>set (concat (map (preorder (Suc fuel) h) cs)). isLive h x) \<longrightarrow>
            findInChildren (Suc fuel) cs compId w =
              Some (Inr (find (hasID h compId) (concat (map (preorder (Suc fuel) h) cs))), w)" for cs
  proof (induction cs)
    case Nil
    show ?case by simp
  next
    case (Cons y ys)
    show ?case
    proof (intro impI)
      assume h: "comps w = h" and r: "\<forall>x\<in>set (y # ys). rank x < Suc fuel"
         and l: "\<forall>x\<in>set (concat (map (preorder (Suc fuel) h) (y # ys))). isLive h x"
      from r have ry: "rank y < Suc fuel" and rys: "\<forall>x\<in>set ys. rank x < Suc fuel" by simp_all
      from l have ly: "\<forall>x\<in>set (preorder (Suc fuel) h y). isLive h x"
        and lys: "\<forall>x\<in>set (concat (map (preorder (Suc fuel) h) ys)). isLive h x"
        by auto
      from a [OF h ry ly]
      have fy: "findComponentWithID (Suc fuel) y compId w =
                  Some (Inr (find (hasID h compId) (preorder (Suc fuel) h y)), w)" .
      from Cons.IH h rys lys
      have fys: "findInChildren (Suc fuel) ys compId w =
              Some (Inr (find (hasID h compId) (concat (map (preorder (Suc fuel) h) ys))), w)"
        by blast
      have cc: "concat (map (preorder (Suc fuel) h) (y # ys)) =
                  preorder (Suc fuel) h y @ concat (map (preorder (Suc fuel) h) ys)"
        by simp
      show "findInChildren (Suc fuel) (y # ys) compId w =
              Some (Inr (find (hasID h compId) (concat (map (preorder (Suc fuel) h) (y # ys)))), w)"
        unfolding cc find_append_case findInChildren.simps fy
        by (cases "find (hasID h compId) (preorder (Suc fuel) h y)") (simp_all add: fys)
    qed
  qed
  from a b show ?case by blast
qed

lemma nearestMapped_isMapped: "nearestMapped n E w s = Some a \<Longrightarrow> isMapped E w a"
  by (auto simp: nearestMapped_def find_Some_iff)

lemma nearestMapped_self: "isMapped E w s \<Longrightarrow> nearestMapped n E w s = Some s"
  by (cases n) (simp_all add: nearestMapped_def)

lemma nearestMapped_step:
  "\<not> isMapped E w s \<Longrightarrow> nearestMapped n E w s = Some a \<Longrightarrow>
   \<exists>k. n = Suc k \<and> isValid (getParent E s) \<and> nearestMapped k E w (getParent E s) = Some a"
  by (cases n) (auto simp: nearestMapped_def split: if_splits)

lemma updateComponent_nearest:
  assumes root: "component w = Some root"
      and found: "findComponentWithID m root (getStateId E a) w = Some (Inr oc, w1)"
      and t: "getHandlerForState E w a = Some t"
  shows "nearestMapped n E w s = Some a \<Longrightarrow> n + m < fuel \<Longrightarrow>
         updateComponent fuel E s w =
           (case oc of
              None \<Rightarrow> Some (Inr (), w)
            | Some c \<Rightarrow> Some (Inr (), w\<lparr>comps := updateComponentFromState E t c a (comps w),
                                        trace := trace w @ [Updated t c a]\<rparr>))"
proof (induction n arbitrary: s fuel)
  case 0
  then obtain f where f: "fuel = Suc f" "m \<le> f" by (cases fuel) auto
  from 0 have sa: "s = a" by (simp add: nearestMapped_def split: if_splits)
  from 0 have uid: "getStateId E a \<noteq> []"
    by (auto dest: nearestMapped_isMapped simp: isMapped_def)
  from find_frame found uid have w1: "w1 = w" by blast
  from find_mono [OF found f(2)] w1
  have "findComponentWithID f root (getStateId E a) w = Some (Inr oc, w)" by simp
  then show ?case
    by (cases oc)
       (simp_all only: f sa updateComponent_direct [OF root t uid] option.case sum.case prod.case)
next
  case (Suc n)
  then obtain f where f: "fuel = Suc f" "Suc n + m \<le> f" by (cases fuel) auto
  from Suc.prems have uid: "getStateId E a \<noteq> []"
    by (auto dest: nearestMapped_isMapped simp: isMapped_def)
  from find_frame found uid have w1: "w1 = w" by blast
  show ?case
  proof (cases "isMapped E w s")
    case True
    with Suc.prems have sa: "s = a" by (simp add: nearestMapped_self)
    from f have "m \<le> f" by simp
    from find_mono [OF found this] w1
    have "findComponentWithID f root (getStateId E a) w = Some (Inr oc, w)" by simp
    then show ?thesis
      by (cases oc)
         (simp_all only: f sa updateComponent_direct [OF root t uid] option.case sum.case prod.case)
  next
    case False
    from nearestMapped_step [OF False Suc.prems(1)]
    have v: "isValid (getParent E s)" and nm: "nearestMapped n E w (getParent E s) = Some a"
      by auto
    from f have "n + m < f" by simp
    from Suc.IH [OF nm this] v show ?thesis
      by (simp only: f updateComponent_walk [OF root False] if_True)
  qed
qed

text \<open>
  Claim C4. Let the root be there (or be created by this very call), let the
  component tree under it be a tree of live components (a rank falls along every
  child link), and let \<open>a\<close> be the nearest of the changed node and its ancestors
  that has a registered handler and a non-empty \<open>id\<close>. Then a property change on
  the node does one thing: it calls the update operation of the handler of \<open>a\<close>
  on the instance that carries the id of \<open>a\<close>, the first such component of the
  tree in depth-first order, wherever in the tree it is; when no component of the
  tree carries the id it calls nothing. If the changed node is mapped itself,
  \<open>a\<close> is that node; if it is not, \<open>a\<close> is another node, and nothing is called
  for the changed node.
\<close>

theorem updateComponent_ancestor_walk:
  assumes managed: "getManagedComponent E w = (Inr (Some root), w0)"
      and near: "nearestMapped n E w0 s = Some a"
      and rank: "\<forall>c obj x. lookupC (comps w0) c = Some obj \<and> x \<in> set (childComponentList obj) \<longrightarrow>
                   rank x < rank c"
      and live: "\<forall>x\<in>set (preorder (Suc (rank root)) (comps w0) root). isLive (comps w0) x"
      and fuel: "n + rank root + 1 < fuel"
  shows "\<exists>t. getHandlerForState E w0 a = Some t \<and> getStateId E a \<noteq> [] \<and>
             valueTreePropertyChanged fuel E s property w =
               (case instanceWithID (Suc (rank root)) (comps w0) root (getStateId E a) of
                  None \<Rightarrow> Some (Inr (), w0)
                | Some c \<Rightarrow>
                    Some (Inr (), w0\<lparr>comps := updateComponentFromState E t c a (comps w0),
                                    trace := trace w0 @ [Updated t c a]\<rparr>)) \<and>
             (\<forall>c. instanceWithID (Suc (rank root)) (comps w0) root (getStateId E a) = Some c \<longrightarrow>
                  hasID (comps w0) (getStateId E a) c \<and>
                  c \<in> set (preorder (Suc (rank root)) (comps w0) root)) \<and>
             (instanceWithID (Suc (rank root)) (comps w0) root (getStateId E a) = None \<longleftrightarrow>
                  (\<forall>c\<in>set (preorder (Suc (rank root)) (comps w0) root).
                      \<not> hasID (comps w0) (getStateId E a) c)) \<and>
             (isMapped E w0 s \<longrightarrow> a = s) \<and> (\<not> isMapped E w0 s \<longrightarrow> a \<noteq> s)"
proof -
  let ?h = "comps w0" and ?m = "Suc (rank root)"
  let ?i = "instanceWithID ?m ?h root (getStateId E a)"
  from near have ma: "isMapped E w0 a" by (rule nearestMapped_isMapped)
  then obtain t where t: "getHandlerForState E w0 a = Some t" and uid: "getStateId E a \<noteq> []"
    by (auto simp: isMapped_def)
  from managed have root: "component w0 = Some root" by (rule getManagedComponent_result)
  from fuel obtain f where f: "fuel = Suc f" by (cases fuel) auto
  from find_spec [OF rank uid, of w0 root ?m] live
  have found: "findComponentWithID ?m root (getStateId E a) w0 = Some (Inr ?i, w0)"
    by (simp add: instanceWithID_def del: preorder.simps findComponentWithID.simps)
  from fuel have fuel': "n + ?m < fuel" by simp
  have "updateComponent fuel E s w = updateComponent fuel E s w0"
    unfolding f using managed by (rule updateComponent_managed)
  also have "\<dots> = (case ?i of
                  None \<Rightarrow> Some (Inr (), w0)
                | Some c \<Rightarrow>
                    Some (Inr (), w0\<lparr>comps := updateComponentFromState E t c a (comps w0),
                                    trace := trace w0 @ [Updated t c a]\<rparr>))"
    using root found t near fuel' by (rule updateComponent_nearest)
  finally have u: "valueTreePropertyChanged fuel E s property w =
               (case ?i of
                  None \<Rightarrow> Some (Inr (), w0)
                | Some c \<Rightarrow>
                    Some (Inr (), w0\<lparr>comps := updateComponentFromState E t c a (comps w0),
                                    trace := trace w0 @ [Updated t c a]\<rparr>))"
    by (simp only: valueTreePropertyChanged_def)
  have s1: "\<forall>c. ?i = Some c \<longrightarrow> hasID ?h (getStateId E a) c \<and> c \<in> set (preorder ?m ?h root)"
    unfolding instanceWithID_def find_Some_iff by (metis nth_mem)
  have s2: "?i = None \<longleftrightarrow> (\<forall>c\<in>set (preorder ?m ?h root). \<not> hasID ?h (getStateId E a) c)"
    unfolding instanceWithID_def find_None_iff by blast
  have m1: "isMapped E w0 s \<longrightarrow> a = s" using near by (auto simp: nearestMapped_self)
  have m2: "\<not> isMapped E w0 s \<longrightarrow> a \<noteq> s" using ma by auto
  show ?thesis by (rule exI [of _ t]) (intro conjI t uid u s1 s2 m1 m2)
qed


lemmas demo_defs = demoWorld_def demoEnv_def demoTree_def demoHandlers_def builtWorld_def
  builtHeap_def button_def idProperty_def

theorem updateComponent_ancestor_walk_witness:
  "valueTreePropertyChanged 5 demoEnv (Some 4) ''text'' builtWorld =
     Some (Inr (), builtWorld\<lparr>trace := [Updated 0 0 (Some 0)]\<rparr>)
   \<and> valueTreePropertyChanged 3 demoEnv (Some 2) ''text'' builtWorld =
       Some (Inr (), builtWorld\<lparr>trace := [Updated 1 2 (Some 2)]\<rparr>)
   \<and> valueTreePropertyChanged 3 demoEnv (Some 7) ''text'' builtWorld = Some (Inr (), builtWorld)"
proof -
  have m: "getManagedComponent demoEnv builtWorld = (Inr (Some 0), builtWorld)"
    by (simp add: getManagedComponent_def builtWorld_def)
  have r: "\<forall>c obj x. lookupC (comps builtWorld) c = Some obj \<and> x \<in> set (childComponentList obj) \<longrightarrow>
             builtRank x < builtRank c"
    by (auto simp: lookupC_def builtWorld_def builtHeap_def builtRank_def button_def nth_Cons
             split: if_splits nat.splits)
  have p: "preorder (Suc (builtRank 0)) (comps builtWorld) 0 = [0, 1, 2]"
    by (simp add: builtRank_def childrenOf_def lookupC_def builtWorld_def builtHeap_def button_def)
  have l: "\<forall>x\<in>set (preorder (Suc (builtRank 0)) (comps builtWorld) 0). isLive (comps builtWorld) x"
    unfolding p by (simp add: isLive_def lookupC_def builtWorld_def builtHeap_def)
  have n4: "nearestMapped 2 demoEnv builtWorld (Some 4) = Some (Some 0)"
    by (simp add: nearestMapped_def numeral_2_eq_2 isMapped_def getParent_def isValid_def
        getHandlerForState_def getType_def getStateId_def demo_defs)
  have n2: "nearestMapped 0 demoEnv builtWorld (Some 2) = Some (Some 2)"
    by (simp add: nearestMapped_def isMapped_def getParent_def isValid_def
        getHandlerForState_def getType_def getStateId_def demo_defs)
  have n7: "nearestMapped 0 demoEnv builtWorld (Some 7) = Some (Some 7)"
    by (simp add: nearestMapped_def isMapped_def getParent_def isValid_def
        getHandlerForState_def getType_def getStateId_def demo_defs)
  have f4: "2 + builtRank 0 + 1 < (5::nat)" and f2: "0 + builtRank 0 + 1 < (3::nat)"
    by (simp_all add: builtRank_def)
  have i0: "instanceWithID (Suc (builtRank 0)) (comps builtWorld) 0 (getStateId demoEnv (Some 0)) = Some 0"
    and i2: "instanceWithID (Suc (builtRank 0)) (comps builtWorld) 0 (getStateId demoEnv (Some 2)) = Some 2"
    and i7: "instanceWithID (Suc (builtRank 0)) (comps builtWorld) 0 (getStateId demoEnv (Some 7)) = None"
    unfolding instanceWithID_def p
    by (simp_all add: hasID_def lookupC_def getStateId_def demo_defs)
  from updateComponent_ancestor_walk [OF m n4 r l f4, of "''text''"]
  have 1: "valueTreePropertyChanged 5 demoEnv (Some 4) ''text'' builtWorld =
     Some (Inr (), builtWorld\<lparr>trace := [Updated 0 0 (Some 0)]\<rparr>)"
    unfolding i0 by (auto simp: getHandlerForState_def getType_def demo_defs)
  from updateComponent_ancestor_walk [OF m n2 r l f2, of "''text''"]
  have 2: "valueTreePropertyChanged 3 demoEnv (Some 2) ''text'' builtWorld =
       Some (Inr (), builtWorld\<lparr>trace := [Updated 1 2 (Some 2)]\<rparr>)"
    unfolding i2 by (auto simp: getHandlerForState_def getType_def demo_defs)
  from updateComponent_ancestor_walk [OF m n7 r l f2, of "''text''"]
  have 3: "valueTreePropertyChanged 3 demoEnv (Some 7) ''text'' builtWorld = Some (Inr (), builtWorld)"
    unfolding i7 by auto
  from 1 2 3 show ?thesis by (intro conjI)
qed

text \<open>
  Claim C10. Let the state tree be finite in that a depth function falls along
  every parent link, and the component heap in that a rank function falls along
  every child link. Then the search for a component returns whenever the bound
  exceeds the rank of the component it starts from, \<open>updateComponent\<close> returns
  whenever the bound exceeds the depth of the state node plus the rank of the root
  plus one, and the parent that \<open>updateComponent\<close> goes on with is strictly less
  deep than the node.
\<close>

theorem updateComponent_terminates:
  assumes depth: "\<forall>n p. vtParent (valueTrees E n) = Some p \<longrightarrow> depth p < depth n"
      and rank: "\<forall>c obj x. lookupC h c = Some obj \<and> x \<in> set (childComponentList obj) \<longrightarrow> rank x < rank c"
  shows "(\<forall>fuel c compId (w :: World).
            comps w = h \<and> rank c < fuel \<longrightarrow> findComponentWithID fuel c compId w \<noteq> None)
       \<and> (\<forall>fuel s w.
            comps (snd (getManagedComponent E w)) = h \<and>
            (case s of None \<Rightarrow> 0 | Some n \<Rightarrow> depth n)
              + (case fst (getManagedComponent E w) of Inr (Some root) \<Rightarrow> rank root | _ \<Rightarrow> 0) + 1 < fuel \<longrightarrow>
            updateComponent fuel E s w \<noteq> None)
       \<and> (\<forall>s. isValid (getParent E s) \<longrightarrow>
              (case getParent E s of None \<Rightarrow> 0 | Some n \<Rightarrow> depth n)
                < (case s of None \<Rightarrow> 0 | Some n \<Rightarrow> depth n))"
proof (intro conjI allI impI)
  fix fuel c compId and w :: World
  assume "comps w = h \<and> rank c < fuel"
  with find_total [OF rank] show "findComponentWithID fuel c compId w \<noteq> None" by blast
next
  fix fuel s w
  assume a: "comps (snd (getManagedComponent E w)) = h \<and>
            (case s of None \<Rightarrow> 0 | Some n \<Rightarrow> depth n)
              + (case fst (getManagedComponent E w) of Inr (Some root) \<Rightarrow> rank root | _ \<Rightarrow> 0) + 1 < fuel"
  then obtain f where f: "fuel = Suc f" by (cases fuel) auto
  obtain r0 w0 where m: "getManagedComponent E w = (r0, w0)" by (cases "getManagedComponent E w")
  show "updateComponent fuel E s w \<noteq> None"
  proof (cases r0)
    case (Inl e)
    with m f show ?thesis by simp
  next
    case (Inr c)
    show ?thesis
    proof (cases c)
      case None
      with m f Inr show ?thesis by simp
    next
      case (Some root)
      with m Inr have m': "getManagedComponent E w = (Inr (Some root), w0)" by simp
      then have root: "component w0 = Some root" by (rule getManagedComponent_result)
      from a m' have h: "comps w0 = h"
        and b: "(case s of None \<Rightarrow> 0 | Some n \<Rightarrow> depth n) + rank root + 1 < fuel"
        by simp_all
      have "updateComponent (Suc f) E s w = updateComponent (Suc f) E s w0"
        using m' by (rule updateComponent_managed)
      with updateComponent_total [OF depth rank root h b] show ?thesis
        unfolding f by (simp del: updateComponent.simps)
    qed
  qed
next
  fix s
  assume "isValid (getParent E s)"
  with depth show "(case getParent E s of None \<Rightarrow> 0 | Some n \<Rightarrow> depth n)
                < (case s of None \<Rightarrow> 0 | Some n \<Rightarrow> depth n)"
    by (auto simp: isValid_def getParent_def split: option.splits)
qed

theorem updateComponent_terminates_witness:
  "updateComponent 5 demoEnv (Some 4) builtWorld \<noteq> None
   \<and> findComponentWithID 2 0 ''b2'' builtWorld \<noteq> None"
proof -
  have d: "\<forall>n p. vtParent (valueTrees demoEnv n) = Some p \<longrightarrow> demoDepth p < demoDepth n"
    by (simp add: demoEnv_def demoTree_def demoDepth_def)
  have r: "\<forall>c obj x. lookupC builtHeap c = Some obj \<and> x \<in> set (childComponentList obj) \<longrightarrow>
             builtRank x < builtRank c"
    by (auto simp: lookupC_def builtHeap_def builtRank_def button_def nth_Cons split: if_splits nat.splits)
  note t = updateComponent_terminates [OF d r]
  have m: "getManagedComponent demoEnv builtWorld = (Inr (Some 0), builtWorld)"
    by (simp add: getManagedComponent_def builtWorld_def)
  have 1: "updateComponent 5 demoEnv (Some 4) builtWorld \<noteq> None"
    using t [THEN conjunct2, THEN conjunct1, rule_format, of builtWorld "Some 4" 5] m
    by (simp add: builtWorld_def demoDepth_def builtRank_def)
  have 2: "findComponentWithID 2 0 ''b2'' builtWorld \<noteq> None"
    using t [THEN conjunct1, rule_format, of builtWorld 0 2 "''b2''"]
    by (simp add: builtWorld_def builtRank_def)
  from 1 2 show ?thesis by simp
qed

subsection \<open>updateChildComponents\<close>

paragraph \<open>Heap updates\<close>

lemma lookupC_setChildren:
  "lookupC (setChildren p l h) x =
     (if x = p then map_option (\<lambda>obj. obj\<lparr>childComponentList := l\<rparr>) (lookupC h p) else lookupC h x)"
  by (auto simp: setChildren_def lookupC_update dest: lookupC_Some_less split: option.splits)

lemma isLive_setChildren [simp]: "isLive (setChildren p l h) x = isLive h x"
  by (simp add: isLive_def lookupC_setChildren)

lemma isChildOf_setChildren [simp]: "isChildOf (setChildren p l h) q c = isChildOf h q c"
  by (auto simp: isChildOf_def lookupC_setChildren split: option.splits)

lemma hasID_setChildren [simp]: "hasID (setChildren p l h) i c = hasID h i c"
  by (auto simp: hasID_def lookupC_setChildren split: option.splits)

lemma childrenOf_setChildren:
  "childrenOf (setChildren p l h) x = (if x = p \<and> isLive h p then l else childrenOf h x)"
  by (auto simp: childrenOf_def isLive_def lookupC_setChildren split: option.splits)

lemma setChildren_twice [simp]: "setChildren p l (setChildren p l' h) = setChildren p l h"
  by (auto simp: setChildren_def lookupC_update dest: lookupC_Some_less split: option.splits)

lemma setChildren_same: "setChildren p (childrenOf h p) h = h"
  by (auto simp: setChildren_def childrenOf_def lookupC_def list_update_same_conv split: option.splits if_splits)

lemma isChildOf_isLive: "isChildOf h p c \<Longrightarrow> isLive h c"
  by (auto simp: isChildOf_def isLive_def split: option.splits)

lemma length_setChildren [simp]: "length (setChildren p l h) = length h"
  by (simp add: setChildren_def split: option.splits)

paragraph \<open>The component operations\<close>

lemma toFront_child:
  "isChildOf (comps w) p c \<Longrightarrow> isLive (comps w) p \<Longrightarrow>
   toFront c w =
     (Inr (), w\<lparr>comps := setChildren p (raiseToFront c (childrenOf (comps w) p)) (comps w),
                trace := trace w @ [ToFront c]\<rparr>)"
  by (auto simp: toFront_def isChildOf_def isLive_def setChildren_def childrenOf_def split: option.splits)

lemma toBehind_child:
  "isChildOf (comps w) p c \<Longrightarrow> isLive (comps w) p \<Longrightarrow>
   toBehind c other w =
     (Inr (), w\<lparr>comps := setChildren p (placeBehind c other (childrenOf (comps w) p)) (comps w),
                trace := trace w @ [ToBehind c other]\<rparr>)"
  by (auto simp: toBehind_def isChildOf_def isLive_def setChildren_def childrenOf_def split: option.splits)

lemma length_detachChildren [simp]: "length (detachChildren xs h) = length h"
  by (induction xs arbitrary: h) (auto split: option.splits)

lemma lookupC_detachChildren:
  "lookupC (detachChildren xs h) x =
     (if x \<in> set xs then map_option (\<lambda>obj. obj\<lparr>parentComponent := None\<rparr>) (lookupC h x)
      else lookupC h x)"
proof (induction xs arbitrary: h)
  case Nil
  show ?case by simp
next
  case (Cons a xs)
  let ?h1 = "case lookupC h a of None \<Rightarrow> h | Some obj \<Rightarrow> h[a := Some (obj\<lparr>parentComponent := None\<rparr>)]"
  have 1: "lookupC ?h1 y =
             (if y = a then map_option (\<lambda>obj. obj\<lparr>parentComponent := None\<rparr>) (lookupC h a)
              else lookupC h y)" for y
    by (auto simp: lookupC_update dest: lookupC_Some_less split: option.splits)
  have 2: "map_option (\<lambda>obj::Component. obj\<lparr>parentComponent := None\<rparr>)
             (map_option (\<lambda>obj. obj\<lparr>parentComponent := None\<rparr>) v) =
           map_option (\<lambda>obj. obj\<lparr>parentComponent := None\<rparr>) v" for v
    by (cases v) simp_all
  show ?case
    by (simp only: detachChildren.simps Cons.IH [of ?h1] 1) (auto simp: 2)
qed

lemma deleteComponent_child:
  assumes ch: "isChildOf (comps w) p c" and live: "isLive (comps w) p"
      and pn: "p \<notin> set (childrenOf (comps w) c)"
  shows "\<exists>h'. deleteComponent c w = (Inr (), w\<lparr>comps := h', trace := trace w @ [Deleted c]\<rparr>) \<and>
          (\<forall>x. lookupC h' x =
                 (if x = c then None
                  else if x = p
                  then map_option (\<lambda>obj. obj\<lparr>childComponentList := removeAll c (childComponentList obj)\<rparr>)
                         (lookupC (comps w) p)
                  else if x \<in> set (childrenOf (comps w) c)
                  then map_option (\<lambda>obj. obj\<lparr>parentComponent := None\<rparr>) (lookupC (comps w) x)
                  else lookupC (comps w) x))"
proof -
  let ?h = "comps w"
  from ch obtain obj where obj: "lookupC ?h c = Some obj" "parentComponent obj = Some p"
    by (auto simp: isChildOf_def split: option.splits)
  then have cc: "childrenOf ?h c = childComponentList obj" by (simp add: childrenOf_def)
  from live obtain pc where pc: "lookupC ?h p = Some pc" by (auto simp: isLive_def)
  let ?h1 = "detachChildren (rev (childComponentList obj)) ?h"
  have l1: "lookupC ?h1 x =
              (if x \<in> set (childrenOf ?h c)
               then map_option (\<lambda>obj. obj\<lparr>parentComponent := None\<rparr>) (lookupC ?h x)
               else lookupC ?h x)" for x
    by (simp add: lookupC_detachChildren cc)
  from pn pc have p1: "lookupC ?h1 p = Some pc" by (simp add: l1)
  let ?h' = "?h1[p := Some (pc\<lparr>childComponentList := removeAll c (childComponentList pc)\<rparr>), c := None]"
  have d: "deleteComponent c w = (Inr (), w\<lparr>comps := ?h', trace := trace w @ [Deleted c]\<rparr>)"
    using obj p1 by (simp add: deleteComponent_def Let_def)
  from obj have cl: "c < length ?h" by (auto dest: lookupC_Some_less)
  from pc have pl: "p < length ?h" by (auto dest: lookupC_Some_less)
  have "\<forall>x. lookupC ?h' x =
                 (if x = c then None
                  else if x = p
                  then map_option (\<lambda>obj. obj\<lparr>childComponentList := removeAll c (childComponentList obj)\<rparr>)
                         (lookupC ?h p)
                  else if x \<in> set (childrenOf ?h c)
                  then map_option (\<lambda>obj. obj\<lparr>parentComponent := None\<rparr>) (lookupC ?h x)
                  else lookupC ?h x)"
    using cl pl pc by (simp add: lookupC_update l1)
  with d show ?thesis by blast
qed

paragraph \<open>List facts for the z-order pass\<close>

lemma remove1_filter_distinct:
  "distinct l \<Longrightarrow> remove1 c (filter P l) = filter (\<lambda>x. P x \<and> x \<noteq> c) l"
  by (induction l) (auto simp: remove1_idem filter_id_conv)

lemma insertBefore_append:
  "other \<notin> set A \<Longrightarrow> insertBefore c other (A @ other # D) = A @ c # other # D"
  by (induction A) auto

lemma raiseToFront_distinct:
  "distinct l \<Longrightarrow> c \<in> set l \<Longrightarrow> raiseToFront c l = filter (\<lambda>x. x \<noteq> c) l @ [c]"
  by (simp add: raiseToFront_def distinct_remove1_removeAll removeAll_filter_not_eq) metis

lemma placeBehind_step:
  assumes dl: "distinct l" and dc: "distinct (c # other # D)" and cl: "c \<in> set l"
  shows "placeBehind c other (filter (\<lambda>x. x \<notin> set (other # D)) l @ other # D) =
         filter (\<lambda>x. x \<notin> set (c # other # D)) l @ c # other # D"
proof -
  let ?A = "filter (\<lambda>x. x \<notin> set (other # D)) l"
  from dc cl have cA: "c \<in> set ?A" by auto
  have oA: "other \<notin> set ?A" by simp
  from cA dc have "placeBehind c other (?A @ other # D) = insertBefore c other (remove1 c (?A @ other # D))"
    by (auto simp: placeBehind_def)
  also from cA have "remove1 c (?A @ other # D) = remove1 c ?A @ other # D"
    by (simp add: remove1_append)
  also from dl have "remove1 c ?A = filter (\<lambda>x. x \<notin> set (other # D) \<and> x \<noteq> c) l"
    by (rule remove1_filter_distinct)
  also have "\<dots> = filter (\<lambda>x. x \<notin> set (c # other # D)) l"
    by (rule filter_cong) auto
  finally show ?thesis
    by (simp add: insertBefore_append)
qed

paragraph \<open>The z-order pass\<close>

lemma toBehindLoop_order:
  assumes dl: "distinct l" and dcs: "distinct cs" and sub: "set cs \<subseteq> set l"
  shows "k < length cs \<Longrightarrow> isLive (comps w) p \<Longrightarrow> \<forall>c\<in>set cs. isChildOf (comps w) p c \<Longrightarrow>
         childrenOf (comps w) p = filter (\<lambda>x. x \<notin> set (drop k cs)) l @ drop k cs \<Longrightarrow>
         toBehindLoop cs k w =
           (Inr (), w\<lparr>comps := setChildren p (filter (\<lambda>x. x \<notin> set cs) l @ cs) (comps w),
                      trace := trace w @ map (\<lambda>i. ToBehind (cs ! i) (cs ! Suc i)) (rev [0..<k])\<rparr>)"
proof (induction k arbitrary: w)
  case 0
  then have "childrenOf (comps w) p = filter (\<lambda>x. x \<notin> set cs) l @ cs" by simp
  then have "setChildren p (filter (\<lambda>x. x \<notin> set cs) l @ cs) (comps w) = comps w"
    by (metis setChildren_same)
  then show ?case by simp
next
  case (Suc k)
  let ?c = "cs ! k" and ?o = "cs ! Suc k" and ?D = "drop (Suc (Suc k)) cs"
  from Suc.prems(1) have dk: "drop k cs = ?c # ?o # ?D"
    by (simp add: Cons_nth_drop_Suc Suc_lessD)
  from Suc.prems(1) have dk1: "drop (Suc k) cs = ?o # ?D"
    by (simp add: Cons_nth_drop_Suc)
  from dcs have dd: "distinct (?c # ?o # ?D)"
    by (metis dk distinct_drop)
  from Suc.prems(1) sub have cl: "?c \<in> set l" by (simp add: Suc_lessD subset_code(1))
  from Suc.prems(1) Suc.prems(3) have ch: "isChildOf (comps w) p ?c" by (simp add: Suc_lessD)
  let ?L = "filter (\<lambda>x. x \<notin> set (drop k cs)) l @ drop k cs"
  have pb: "placeBehind ?c ?o (childrenOf (comps w) p) = ?L"
    using placeBehind_step [OF dl dd cl] Suc.prems(4) by (simp add: dk dk1)
  let ?w1 = "w\<lparr>comps := setChildren p ?L (comps w), trace := trace w @ [ToBehind ?c ?o]\<rparr>"
  have step: "toBehind ?c ?o w = (Inr (), ?w1)"
    using toBehind_child [OF ch Suc.prems(2), of ?o] pb by simp
  have "toBehindLoop cs k ?w1 =
           (Inr (), ?w1\<lparr>comps := setChildren p (filter (\<lambda>x. x \<notin> set cs) l @ cs) (comps ?w1),
                      trace := trace ?w1 @ map (\<lambda>i. ToBehind (cs ! i) (cs ! Suc i)) (rev [0..<k])\<rparr>)"
  proof (rule Suc.IH)
    show "k < length cs" using Suc.prems(1) by simp
    show "isLive (comps ?w1) p" using Suc.prems(2) by simp
    show "\<forall>c\<in>set cs. isChildOf (comps ?w1) p c" using Suc.prems(3) by simp
    show "childrenOf (comps ?w1) p = ?L" using Suc.prems(2) by (simp add: childrenOf_setChildren)
  qed
  with step show ?case by simp
qed

lemma zOrderPass_order:
  assumes live: "isLive (comps w) p" and dl: "distinct (childrenOf (comps w) p)"
      and dcs: "distinct cs" and sub: "set cs \<subseteq> set (childrenOf (comps w) p)"
      and ch: "\<forall>c\<in>set cs. isChildOf (comps w) p c"
  shows "zOrderPass cs w =
           (Inr (), w\<lparr>comps := setChildren p (filter (\<lambda>x. x \<notin> set cs) (childrenOf (comps w) p) @ cs) (comps w),
                      trace := trace w @ zOrderCalls cs\<rparr>)"
proof (cases "cs = []")
  case True
  then show ?thesis by (simp add: zOrderPass_def zOrderCalls_def setChildren_same)
next
  case False
  let ?l = "childrenOf (comps w) p"
  let ?n = "length cs"
  from False have n: "?n - 1 < ?n" by simp
  from False have dl1: "drop (length cs - Suc 0) cs = [last cs]"
    by (metis One_nat_def append_butlast_last_id append_eq_conv_conj length_butlast)
  from False sub have ll: "last cs \<in> set ?l" by auto
  from False ch have lc: "isChildOf (comps w) p (last cs)" by simp
  let ?L = "filter (\<lambda>x. x \<notin> set (drop (?n - 1) cs)) ?l @ drop (?n - 1) cs"
  have rf: "raiseToFront (last cs) ?l = ?L"
    using raiseToFront_distinct [OF dl ll] by (simp add: dl1)
  let ?w1 = "w\<lparr>comps := setChildren p ?L (comps w), trace := trace w @ [ToFront (last cs)]\<rparr>"
  have step: "toFront (last cs) w = (Inr (), ?w1)"
    using toFront_child [OF lc live] rf by simp
  have "toBehindLoop cs (?n - 1) ?w1 =
           (Inr (), ?w1\<lparr>comps := setChildren p (filter (\<lambda>x. x \<notin> set cs) ?l @ cs) (comps ?w1),
                      trace := trace ?w1 @ map (\<lambda>i. ToBehind (cs ! i) (cs ! Suc i)) (rev [0..<?n - 1])\<rparr>)"
  proof (rule toBehindLoop_order [OF dl dcs sub n])
    show "isLive (comps ?w1) p" using live by simp
    show "\<forall>c\<in>set cs. isChildOf (comps ?w1) p c" using ch by simp
    show "childrenOf (comps ?w1) p = ?L" using live by (simp add: childrenOf_setChildren)
  qed
  with step False show ?thesis
    by (simp add: zOrderPass_def zOrderCalls_def)
qed

paragraph \<open>Releasing the pool\<close>

lemma deleteEach_children:
  assumes pn: "p \<notin> set cs" and d: "distinct cs"
  shows "isLive (comps w) p \<Longrightarrow> \<forall>c\<in>set cs. isChildOf (comps w) p c \<Longrightarrow>
     \<forall>c\<in>set cs. \<forall>x\<in>set (childrenOf (comps w) c). x \<noteq> p \<and> x \<notin> set cs \<Longrightarrow>
     \<exists>h'. deleteEach cs w = (Inr (), w\<lparr>comps := h', trace := trace w @ map Deleted cs\<rparr>) \<and>
          (\<forall>x. lookupC h' x =
                 (if x \<in> set cs then None
                  else if x = p
                  then map_option (\<lambda>obj. obj\<lparr>childComponentList :=
                                            filter (\<lambda>y. y \<notin> set cs) (childComponentList obj)\<rparr>)
                         (lookupC (comps w) p)
                  else if \<exists>c\<in>set cs. x \<in> set (childrenOf (comps w) c)
                  then map_option (\<lambda>obj. obj\<lparr>parentComponent := None\<rparr>) (lookupC (comps w) x)
                  else lookupC (comps w) x))"
  using pn d
proof (induction cs arbitrary: w)
  case Nil
  have "\<And>obj::Component. obj\<lparr>childComponentList := childComponentList obj\<rparr> = obj" by simp
  then have "map_option (\<lambda>obj::Component. obj\<lparr>childComponentList := childComponentList obj\<rparr>) v = v" for v
    by (cases v) simp_all
  then show ?case by (intro exI [of _ "comps w"]) simp
next
  case (Cons c cs)
  let ?h = "comps w"
  from Cons.prems have cp: "c \<noteq> p" and ch: "isChildOf ?h p c" and ccs: "c \<notin> set cs" by auto
  from Cons.prems(3) have pnc: "p \<notin> set (childrenOf ?h c)" by auto
  from Cons.prems(3) have gc: "\<forall>x\<in>set (childrenOf ?h c). x \<noteq> c \<and> x \<notin> set cs" by auto
  from deleteComponent_child [OF ch Cons.prems(1) pnc] obtain h1 where
    step: "deleteComponent c w = (Inr (), w\<lparr>comps := h1, trace := trace w @ [Deleted c]\<rparr>)"
    and l1: "\<forall>x. lookupC h1 x =
                 (if x = c then None
                  else if x = p
                  then map_option (\<lambda>obj. obj\<lparr>childComponentList := removeAll c (childComponentList obj)\<rparr>)
                         (lookupC ?h p)
                  else if x \<in> set (childrenOf ?h c)
                  then map_option (\<lambda>obj. obj\<lparr>parentComponent := None\<rparr>) (lookupC ?h x)
                  else lookupC ?h x)"
    by blast
  let ?w1 = "w\<lparr>comps := h1, trace := trace w @ [Deleted c]\<rparr>"
  have same: "lookupC h1 x = lookupC ?h x" if "x \<in> set cs" for x
    using that l1 ccs Cons.prems(4) gc by auto
  have live1: "isLive (comps ?w1) p"
    using Cons.prems(1) cp l1 by (simp add: isLive_def)
  have ch1: "\<forall>x\<in>set cs. isChildOf (comps ?w1) p x"
    using Cons.prems(2) same by (simp add: isChildOf_def)
  have co1: "childrenOf h1 x = childrenOf ?h x" if "x \<in> set cs" for x
    using same [OF that] by (simp add: childrenOf_def)
  have g1: "\<forall>c\<in>set cs. \<forall>x\<in>set (childrenOf (comps ?w1) c). x \<noteq> p \<and> x \<notin> set cs"
    using Cons.prems(3) co1 by simp
  from Cons.prems have "p \<notin> set cs" "distinct cs" by auto
  from Cons.IH [OF live1 ch1 g1 this] obtain h' where
    h': "deleteEach cs ?w1 = (Inr (), ?w1\<lparr>comps := h', trace := trace ?w1 @ map Deleted cs\<rparr>)"
    and look: "\<forall>x. lookupC h' x =
                 (if x \<in> set cs then None
                  else if x = p
                  then map_option (\<lambda>obj. obj\<lparr>childComponentList :=
                                            filter (\<lambda>y. y \<notin> set cs) (childComponentList obj)\<rparr>)
                         (lookupC (comps ?w1) p)
                  else if \<exists>c\<in>set cs. x \<in> set (childrenOf (comps ?w1) c)
                  then map_option (\<lambda>obj. obj\<lparr>parentComponent := None\<rparr>) (lookupC (comps ?w1) x)
                  else lookupC (comps ?w1) x)"
    by blast
  have 1: "deleteEach (c # cs) w = (Inr (), w\<lparr>comps := h', trace := trace w @ map Deleted (c # cs)\<rparr>)"
    using step h' by simp
  have 2: "\<forall>x. lookupC h' x =
                 (if x \<in> set (c # cs) then None
                  else if x = p
                  then map_option (\<lambda>obj. obj\<lparr>childComponentList :=
                                            filter (\<lambda>y. y \<notin> set (c # cs)) (childComponentList obj)\<rparr>)
                         (lookupC ?h p)
                  else if \<exists>c'\<in>set (c # cs). x \<in> set (childrenOf ?h c')
                  then map_option (\<lambda>obj. obj\<lparr>parentComponent := None\<rparr>) (lookupC ?h x)
                  else lookupC ?h x)"
  proof
    fix x
    have f: "filter (\<lambda>y. y \<notin> set cs) (removeAll c l) = filter (\<lambda>y. y \<notin> set (c # cs)) l" for l
      by (induction l) auto
    have m: "map_option (\<lambda>obj::Component. obj\<lparr>parentComponent := None\<rparr>)
             (map_option (\<lambda>obj. obj\<lparr>parentComponent := None\<rparr>) v) =
           map_option (\<lambda>obj. obj\<lparr>parentComponent := None\<rparr>) v" for v
      by (cases v) simp_all
    have ex: "(\<exists>c'\<in>set cs. x \<in> set (childrenOf h1 c')) = (\<exists>c'\<in>set cs. x \<in> set (childrenOf ?h c'))"
      using co1 by simp
    show "lookupC h' x =
                 (if x \<in> set (c # cs) then None
                  else if x = p
                  then map_option (\<lambda>obj. obj\<lparr>childComponentList :=
                                            filter (\<lambda>y. y \<notin> set (c # cs)) (childComponentList obj)\<rparr>)
                         (lookupC ?h p)
                  else if \<exists>c'\<in>set (c # cs). x \<in> set (childrenOf ?h c')
                  then map_option (\<lambda>obj. obj\<lparr>parentComponent := None\<rparr>) (lookupC ?h x)
                  else lookupC ?h x)"
    proof (cases "x \<in> set (c # cs)")
      case True
      then show ?thesis using look [rule_format, of x] l1 [rule_format, of x] by auto
    next
      case xn: False
      show ?thesis
      proof (cases "x = p")
        case True
        with xn cp show ?thesis
          using look [rule_format, of p] l1 [rule_format, of p]
          by (cases "lookupC ?h p") (simp_all add: f)
      next
        case False
        with xn show ?thesis
          using look [rule_format, of x] l1 [rule_format, of x]
          by (simp add: ex m)
      qed
    qed
  qed
  from 1 2 show ?case by blast
qed

lemma isChildOf_unique: "isChildOf h p x \<Longrightarrow> isChildOf h q x \<Longrightarrow> p = q"
  by (auto simp: isChildOf_def split: option.splits)

lemma tree_disjoint:
  assumes ch: "\<forall>x\<in>S. isChildOf h p x" and pn: "p \<notin> set pool"
      and tree: "\<forall>c\<in>set pool. \<not> isChildOf h c p \<and> (\<forall>x\<in>set (childrenOf h c). isChildOf h c x)"
  shows "\<forall>c\<in>set pool. \<forall>x\<in>set (childrenOf h c). x \<noteq> p \<and> x \<notin> S"
proof (intro ballI conjI)
  fix c x
  assume c: "c \<in> set pool" and x: "x \<in> set (childrenOf h c)"
  with tree have cx: "isChildOf h c x" and np: "\<not> isChildOf h c p" by auto
  from cx np show "x \<noteq> p" by auto
  show "x \<notin> S"
  proof
    assume "x \<in> S"
    with ch have "isChildOf h p x" by blast
    with cx have "c = p" by (rule isChildOf_unique)
    with c pn show False by simp
  qed
qed

lemma familyTree_tree:
  "familyTree h p \<Longrightarrow>
   \<forall>c\<in>set (childrenOf h p). \<not> isChildOf h c p \<and> (\<forall>x\<in>set (childrenOf h c). isChildOf h c x)"
  by (simp add: familyTree_def)

lemma familyTree_familyOK: "familyTree h p \<Longrightarrow> familyOK h p"
  by (simp add: familyTree_def)

paragraph \<open>No new children\<close>

lemma updateChildComponents_no_children:
  assumes p: "lookupC (comps w) parent = Some p"
      and empty: "getChildren E children = []"
      and del: "deleteAllObjects (childComponentList p) w = (Inr (), w2)"
  shows "updateChildComponents E parent children w = (Inr (), w2)"
  unfolding updateChildComponents_def
  by (simp only: p empty option.case childStateLoop.simps prod.case sum.case del)
     (simp add: zOrderPass_def)

text \<open>
  Claim C7. On a parent with at least one child, all of them live and pointing
  back to it, \<open>updateChildComponents\<close> with an empty list of new child states
  deletes every existing child, the last one first, and makes no other call: the
  trace gains exactly these deletions, so neither \<open>toFront\<close> nor \<open>toBehind\<close> is
  called. Afterwards no former child is live, the parent is what it was with an
  empty child list, and no component is left the child of a former child. What is
  neither the parent nor a former child nor listed as the child of one is
  untouched.
\<close>

theorem updateChildComponents_empty:
  assumes ok: "familyTree (comps w) parent"
      and empty: "getChildren E children = []"
      and some: "childrenOf (comps w) parent \<noteq> []"
  shows "\<exists>h'. updateChildComponents E parent children w =
                (Inr (), w\<lparr>comps := h',
                           trace := trace w @ map Deleted (rev (childrenOf (comps w) parent))\<rparr>) \<and>
              (\<forall>c\<in>set (childrenOf (comps w) parent). \<not> isLive h' c) \<and>
              lookupC h' parent =
                map_option (\<lambda>obj. obj\<lparr>childComponentList := []\<rparr>) (lookupC (comps w) parent) \<and>
              isLive h' parent \<and> childrenOf h' parent = [] \<and>
              (\<forall>c\<in>set (childrenOf (comps w) parent).
                 \<forall>x\<in>set (childrenOf (comps w) c). \<not> isChildOf h' c x) \<and>
              (\<forall>x. x \<noteq> parent \<and> x \<notin> set (childrenOf (comps w) parent) \<and>
                   (\<forall>c\<in>set (childrenOf (comps w) parent). x \<notin> set (childrenOf (comps w) c)) \<longrightarrow>
                   lookupC h' x = lookupC (comps w) x)"
proof -
  let ?h = "comps w"
  let ?l = "childrenOf (comps w) parent"
  from ok have fo: "familyOK ?h parent" by (rule familyTree_familyOK)
  from fo obtain p where p: "lookupC (comps w) parent = Some p"
    by (auto simp: familyOK_def isLive_def)
  then have l: "childComponentList p = ?l" by (simp add: childrenOf_def)
  from fo have live: "isLive (comps w) parent" and pn: "parent \<notin> set (rev ?l)"
    and d: "distinct (rev ?l)" and ch: "\<forall>c\<in>set (rev ?l). isChildOf (comps w) parent c"
    by (simp_all add: familyOK_def)
  from familyTree_tree [OF ok]
  have tree: "\<forall>c\<in>set (rev ?l). \<not> isChildOf ?h c parent \<and> (\<forall>x\<in>set (childrenOf ?h c). isChildOf ?h c x)"
    by simp
  from tree_disjoint [OF ch pn tree]
  have g: "\<forall>c\<in>set (rev ?l). \<forall>x\<in>set (childrenOf ?h c). x \<noteq> parent \<and> x \<notin> set (rev ?l)" .
  from deleteEach_children [OF pn d live ch g] obtain h' where
    del: "deleteEach (rev ?l) w = (Inr (), w\<lparr>comps := h', trace := trace w @ map Deleted (rev ?l)\<rparr>)"
    and look: "\<forall>x. lookupC h' x =
                 (if x \<in> set (rev ?l) then None
                  else if x = parent
                  then map_option (\<lambda>obj. obj\<lparr>childComponentList :=
                                            filter (\<lambda>y. y \<notin> set (rev ?l)) (childComponentList obj)\<rparr>)
                         (lookupC (comps w) parent)
                  else if \<exists>c\<in>set (rev ?l). x \<in> set (childrenOf ?h c)
                  then map_option (\<lambda>obj. obj\<lparr>parentComponent := None\<rparr>) (lookupC ?h x)
                  else lookupC (comps w) x)"
    by blast
  have 1: "updateChildComponents E parent children w =
          (Inr (), w\<lparr>comps := h', trace := trace w @ map Deleted (rev ?l)\<rparr>)"
  proof -
    have "deleteAllObjects (childComponentList p) w =
            (Inr (), w\<lparr>comps := h', trace := trace w @ map Deleted (rev ?l)\<rparr>)"
      unfolding deleteAllObjects_def l by (rule del)
    with p empty show ?thesis
      by (rule updateChildComponents_no_children)
  qed
  have 2: "\<forall>c\<in>set ?l. \<not> isLive h' c"
    using look by (simp add: isLive_def)
  have fe: "filter (\<lambda>y. y \<notin> set ?l) ?l = []" by (simp add: filter_empty_conv)
  have 3: "lookupC h' parent = map_option (\<lambda>obj. obj\<lparr>childComponentList := []\<rparr>) (lookupC ?h parent)"
    using look [rule_format, of parent] pn p l fe by simp
  then have 4: "isLive h' parent" and 5: "childrenOf h' parent = []"
    using p by (simp_all add: isLive_def childrenOf_def)
  have 6: "\<forall>c\<in>set ?l. \<forall>x\<in>set (childrenOf ?h c). \<not> isChildOf h' c x"
  proof (intro ballI)
    fix c x
    assume c: "c \<in> set ?l" and x: "x \<in> set (childrenOf ?h c)"
    with g have "x \<noteq> parent" "x \<notin> set (rev ?l)" by auto
    with c x have "lookupC h' x = map_option (\<lambda>obj. obj\<lparr>parentComponent := None\<rparr>) (lookupC ?h x)"
      using look [rule_format, of x] by auto
    then show "\<not> isChildOf h' c x"
      by (cases "lookupC ?h x") (simp_all add: isChildOf_def)
  qed
  have 7: "\<forall>x. x \<noteq> parent \<and> x \<notin> set ?l \<and> (\<forall>c\<in>set ?l. x \<notin> set (childrenOf ?h c)) \<longrightarrow>
               lookupC h' x = lookupC ?h x"
    using look by simp
  from 1 2 3 4 5 6 7 show ?thesis by blast
qed

lemmas eval_defs = updateChildComponents_def deleteAllObjects_def zOrderPass_def
  deleteComponent_def toFront_def toBehind_def raiseToFront_def placeBehind_def
  removeComponentWithID_def createNewComponent_def setComponentID_def getHandlerForState_def
  getChildren_def getStateId_def getType_def lookupC_def jassert_def


theorem updateChildComponents_empty_witness:
  "updateChildComponents demoEnv 0 (Some 1) (builtWorld\<lparr>comps := nestedHeap\<rparr>) =
     (Inr (),
      builtWorld\<lparr>comps := [Some \<lparr>componentID = ''root'', parentComponent = None, childComponentList = []\<rparr>,
                           None, None, Some (button ''g'' None), Some (button ''x'' None)],
                 trace := [Deleted 2, Deleted 1]\<rparr>)
   \<and> (\<exists>h'. comps (snd (updateChildComponents demoEnv 0 (Some 1) (builtWorld\<lparr>comps := nestedHeap\<rparr>))) = h' \<and>
           \<not> isLive h' 1 \<and> \<not> isLive h' 2 \<and> childrenOf h' 0 = [] \<and> \<not> isChildOf h' 1 3 \<and>
           lookupC h' 4 = lookupC nestedHeap 4)"
proof -
  let ?w = "builtWorld\<lparr>comps := nestedHeap\<rparr>"
  have c0: "childrenOf nestedHeap 0 = [1, 2]"
    and c1: "childrenOf nestedHeap (Suc 0) = [3]" and c2: "childrenOf nestedHeap 2 = []"
    by (simp_all add: childrenOf_def lookupC_def nestedHeap_def button_def)
  have ok: "familyTree (comps ?w) 0"
    by (simp add: familyTree_def familyOK_def isLive_def childrenOf_def isChildOf_def lookupC_def
                  nestedHeap_def button_def)
  have e: "getChildren demoEnv (Some 1) = []"
    by (simp add: getChildren_def demo_defs)
  have s: "childrenOf (comps ?w) 0 \<noteq> []"
    by (simp add: c0)
  from updateChildComponents_empty [OF ok e s] obtain h' where
    u: "updateChildComponents demoEnv 0 (Some 1) ?w =
       (Inr (), ?w\<lparr>comps := h',
                  trace := trace ?w @ map Deleted (rev (childrenOf (comps ?w) 0))\<rparr>)"
    and d: "\<forall>c\<in>set (childrenOf (comps ?w) 0). \<not> isLive h' c"
    and e: "childrenOf h' 0 = []"
    and g: "\<forall>c\<in>set (childrenOf (comps ?w) 0). \<forall>x\<in>set (childrenOf (comps ?w) c). \<not> isChildOf h' c x"
    and f: "\<forall>x. x \<noteq> 0 \<and> x \<notin> set (childrenOf (comps ?w) 0) \<and>
                   (\<forall>c\<in>set (childrenOf (comps ?w) 0). x \<notin> set (childrenOf (comps ?w) c)) \<longrightarrow>
                   lookupC h' x = lookupC (comps ?w) x"
    by (elim exE conjE) (rule that)
  from d have d': "\<not> isLive h' 1 \<and> \<not> isLive h' 2" by (simp add: c0)
  from g have g': "\<not> isChildOf h' 1 3" by (simp add: c0 c1)
  from f [rule_format, of 4] have f': "lookupC h' 4 = lookupC nestedHeap 4"
    by (simp add: c0 c1 c2)
  from u have h: "comps (snd (updateChildComponents demoEnv 0 (Some 1) ?w)) = h'" by simp
  have 1: "updateChildComponents demoEnv 0 (Some 1) ?w =
     (Inr (),
      builtWorld\<lparr>comps := [Some \<lparr>componentID = ''root'', parentComponent = None, childComponentList = []\<rparr>,
                           None, None, Some (button ''g'' None), Some (button ''x'' None)],
                 trace := [Deleted 2, Deleted 1]\<rparr>)"
    by (simp add: eval_defs Let_def demo_defs nestedHeap_def)
  from h d' e g' f' have 2: "\<exists>h'. comps (snd (updateChildComponents demoEnv 0 (Some 1) ?w)) = h' \<and>
           \<not> isLive h' 1 \<and> \<not> isLive h' 2 \<and> childrenOf h' 0 = [] \<and> \<not> isChildOf h' 1 3 \<and>
           lookupC h' 4 = lookupC nestedHeap 4"
    by blast
  from 1 2 show ?thesis by (rule conjI)
qed

paragraph \<open>A permutation of the existing identifiers\<close>

lemma hasID_getComponentID: "hasID h i c \<longleftrightarrow> getComponentID h c = Some i"
  by (auto simp: hasID_def getComponentID_def split: option.splits)

lemma getComponentID_isLive: "getComponentID h c = Some i \<Longrightarrow> isLive h c"
  by (auto simp: getComponentID_def isLive_def)

lemma remove_nth_subset: "set (take j xs @ drop (Suc j) xs) \<subseteq> set xs"
  by (auto dest: in_set_takeD in_set_dropD)

lemma distinct_remove_nth:
  assumes "distinct xs"
  shows "distinct (take j xs @ drop (Suc j) xs)"
proof -
  have sub: "set (drop (Suc j) xs) \<subseteq> set (drop j xs)"
    by (simp add: set_drop_subset_set_drop)
  from assms have "distinct (take j xs @ drop j xs)" by simp
  then have "set (take j xs) \<inter> set (drop j xs) = {}" by (simp only: distinct_append)
  with sub have "set (take j xs) \<inter> set (drop (Suc j) xs) = {}" by blast
  with assms show ?thesis by simp
qed

lemma distinct_map_remove_nth:
  "distinct (map f xs) \<Longrightarrow> distinct (map f (take j xs @ drop (Suc j) xs))"
  using distinct_remove_nth [of "map f xs" j] by (simp add: take_map drop_map)

lemma distinct_map_nth_unique:
  "distinct (map f xs) \<Longrightarrow> i < length xs \<Longrightarrow> j < length xs \<Longrightarrow> f (xs ! i) = f (xs ! j) \<Longrightarrow> i = j"
  by (metis distinct_conv_nth length_map nth_map)

lemma childStateLoop_permutation:
  "\<forall>c\<in>set pool. \<exists>i. getComponentID (comps w) c = Some i \<and> i \<noteq> [] \<Longrightarrow>
   distinct (map (getComponentID (comps w)) pool) \<Longrightarrow>
   mset (map (\<lambda>s. Some (getStateId E s)) kids) = mset (map (getComponentID (comps w)) pool) \<Longrightarrow>
   \<exists>added. childStateLoop E parent kids pool acc w = (Inr ([], acc @ added), w) \<and>
           mset added = mset pool \<and>
           map (getComponentID (comps w)) added = map (\<lambda>s. Some (getStateId E s)) kids"
proof (induction kids arbitrary: pool acc)
  case Nil
  then show ?case by simp
next
  case (Cons k kids)
  let ?h = "comps w" and ?i = "getStateId E k"
  let ?g = "getComponentID (comps w)"
  from Cons.prems(3) have "set (map (\<lambda>s. Some (getStateId E s)) (k # kids)) = set (map ?g pool)"
    by (rule mset_eq_setD)
  then have "Some ?i \<in> set (map ?g pool)" by auto
  then obtain j where "j < length (map ?g pool)" "map ?g pool ! j = Some ?i"
    unfolding in_set_conv_nth by blast
  then have j: "j < length pool" "?g (pool ! j) = Some ?i" by simp_all
  from j(1) have "pool ! j \<in> set pool" by simp
  with Cons.prems(1) j(2) have ne: "?i \<noteq> []" by fastforce
  have uniq: "\<forall>j'. j < j' \<and> j' < length pool \<longrightarrow> isLive ?h (pool ! j') \<and> \<not> hasID ?h ?i (pool ! j')"
  proof (intro allI impI)
    fix j' assume a: "j < j' \<and> j' < length pool"
    then have "pool ! j' \<in> set pool" by simp
    with Cons.prems(1) have "isLive ?h (pool ! j')"
      by (blast intro: getComponentID_isLive)
    moreover have "\<not> hasID ?h ?i (pool ! j')"
      using distinct_map_nth_unique [OF Cons.prems(2), of j j'] j a
      by (auto simp: hasID_getComponentID)
    ultimately show "isLive ?h (pool ! j') \<and> \<not> hasID ?h ?i (pool ! j')" by simp
  qed
  let ?c = "pool ! j" and ?pool1 = "take j pool @ drop (Suc j) pool"
  have "removeLoop ?h pool ?i (length pool) = Inr (Some ?c, ?pool1)"
    using removeLoop_found [of "length pool" pool j ?h ?i] j uniq
    by (simp add: hasID_getComponentID)
  with ne have rm: "removeComponentWithID pool ?i w = (Inr (Some ?c, ?pool1), w)"
    by (simp add: removeComponentWithID_def Let_def)
  have ms: "mset pool = add_mset ?c (mset ?pool1)"
    using j(1) by (rule mset_remove_nth)
  have 1: "\<forall>c\<in>set ?pool1. \<exists>i. ?g c = Some i \<and> i \<noteq> []"
    using Cons.prems(1) remove_nth_subset [of j pool] by blast
  have 2: "distinct (map ?g ?pool1)"
    using Cons.prems(2) by (rule distinct_map_remove_nth)
  have "mset (map ?g pool) = add_mset (Some ?i) (mset (map ?g ?pool1))"
    using j(2) by (simp add: ms)
  with Cons.prems(3) have 3: "mset (map (\<lambda>s. Some (getStateId E s)) kids) = mset (map ?g ?pool1)"
    by simp
  from Cons.IH [OF 1 2 3, of "acc @ [?c]"] obtain added where
    a: "childStateLoop E parent kids ?pool1 (acc @ [?c]) w = (Inr ([], (acc @ [?c]) @ added), w)"
       "mset added = mset ?pool1" "map ?g added = map (\<lambda>s. Some (getStateId E s)) kids"
    by blast
  show ?case
    using rm a ms j(2) by (intro exI [of _ "?c # added"]) simp
qed

lemma zOrderCalls_no_churn: "filter isChurn (zOrderCalls cs) = []"
  by (simp add: zOrderCalls_def isChurn_def filter_empty_conv)

text \<open>
  Claim C1. Let the children of the parent be live, point back to it, and carry
  identifiers that are not empty and differ from each other, and let the
  identifiers of the new child states be a permutation of them. Then
  \<open>updateChildComponents\<close> changes one thing in the component heap, the order of
  the parent's child list: the new list holds the same components, each once, in
  the order of the new states. The trace gains the z-order calls for that list and
  nothing else, so nothing is created and nothing is deleted; no assertion fails.
\<close>

theorem updateChildComponents_permutation:
  assumes ok: "familyOK (comps w) parent"
      and ids: "\<forall>c\<in>set (childrenOf (comps w) parent). \<exists>i. getComponentID (comps w) c = Some i \<and> i \<noteq> []"
      and dist: "distinct (map (getComponentID (comps w)) (childrenOf (comps w) parent))"
      and perm: "mset (map (\<lambda>s. Some (getStateId E s)) (getChildren E children)) =
                 mset (map (getComponentID (comps w)) (childrenOf (comps w) parent))"
  shows "\<exists>l'. updateChildComponents E parent children w =
                (Inr (), w\<lparr>comps := setChildren parent l' (comps w),
                           trace := trace w @ zOrderCalls l'\<rparr>) \<and>
              mset l' = mset (childrenOf (comps w) parent) \<and>
              map (getComponentID (comps w)) l' = map (\<lambda>s. Some (getStateId E s)) (getChildren E children) \<and>
              filter isChurn (zOrderCalls l') = []"
proof -
  let ?l = "childrenOf (comps w) parent"
  from ok obtain p where p: "lookupC (comps w) parent = Some p"
    by (auto simp: familyOK_def isLive_def)
  then have l: "childComponentList p = ?l" by (simp add: childrenOf_def)
  have "\<exists>added. childStateLoop E parent (getChildren E children) ?l [] w = (Inr ([], [] @ added), w) \<and>
           mset added = mset ?l \<and>
           map (getComponentID (comps w)) added = map (\<lambda>s. Some (getStateId E s)) (getChildren E children)"
    using ids dist perm by (rule childStateLoop_permutation)
  then obtain l' where
    loop0: "childStateLoop E parent (getChildren E children) ?l [] w = (Inr ([], [] @ l'), w)"
    and ms: "mset l' = mset ?l"
    and idl: "map (getComponentID (comps w)) l' = map (\<lambda>s. Some (getStateId E s)) (getChildren E children)"
    by (elim exE conjE)
  from loop0 have loop: "childStateLoop E parent (getChildren E children) ?l [] w = (Inr ([], l'), w)"
    by (simp only: append_Nil)
  from ok have live: "isLive (comps w) parent" and dl: "distinct ?l"
    and ch: "\<forall>c\<in>set ?l. isChildOf (comps w) parent c"
    by (simp_all add: familyOK_def)
  from ms have seteq: "set l' = set ?l" by (rule mset_eq_setD)
  from dl have dl': "distinct l'" by (rule mset_eq_imp_distinct_iff [OF ms, THEN iffD2])
  from seteq have sub: "set l' \<subseteq> set ?l" by simp
  from seteq ch have ch': "\<forall>c\<in>set l'. isChildOf (comps w) parent c" by simp
  have "filter (\<lambda>x. x \<notin> set l') ?l = []" using seteq by (simp add: filter_empty_conv)
  with zOrderPass_order [OF live dl dl' sub ch']
  have z: "zOrderPass l' w =
             (Inr (), w\<lparr>comps := setChildren parent l' (comps w), trace := trace w @ zOrderCalls l'\<rparr>)"
    by simp
  have "updateChildComponents E parent children w =
          (Inr (), w\<lparr>comps := setChildren parent l' (comps w), trace := trace w @ zOrderCalls l'\<rparr>)"
    unfolding updateChildComponents_def
    by (simp only: p option.case l loop prod.case sum.case deleteAllObjects_def rev.simps deleteEach.simps z)
  moreover have "filter isChurn (zOrderCalls l') = []" by (rule zOrderCalls_no_churn)
  ultimately show ?thesis using ms idl by blast
qed


theorem updateChildComponents_permutation_witness:
  "updateChildComponents demoEnv 0 (Some 5) builtWorld =
     (Inr (),
      builtWorld\<lparr>comps := [Some \<lparr>componentID = ''root'', parentComponent = None,
                                  childComponentList = [2, 1]\<rparr>,
                           Some (button ''b1'' (Some 0)), Some (button ''b2'' (Some 0))],
                 trace := [ToFront 1, ToBehind 2 1]\<rparr>)
   \<and> (\<exists>l'. updateChildComponents demoEnv 0 (Some 5) builtWorld =
               (Inr (), builtWorld\<lparr>comps := setChildren 0 l' (comps builtWorld),
                                   trace := trace builtWorld @ zOrderCalls l'\<rparr>) \<and>
            mset l' = {#1, 2#})"
proof -
  have ok: "familyOK (comps builtWorld) 0"
    by (simp add: familyOK_def isLive_def childrenOf_def isChildOf_def lookupC_def demo_defs)
  have ids: "\<forall>c\<in>set (childrenOf (comps builtWorld) 0).
               \<exists>i. getComponentID (comps builtWorld) c = Some i \<and> i \<noteq> []"
    by (simp add: childrenOf_def getComponentID_def lookupC_def demo_defs)
  have dist: "distinct (map (getComponentID (comps builtWorld)) (childrenOf (comps builtWorld) 0))"
    by (simp add: childrenOf_def getComponentID_def lookupC_def demo_defs)
  have perm: "mset (map (\<lambda>s. Some (getStateId demoEnv s)) (getChildren demoEnv (Some 5))) =
              mset (map (getComponentID (comps builtWorld)) (childrenOf (comps builtWorld) 0))"
    by (simp add: childrenOf_def getComponentID_def lookupC_def getChildren_def getStateId_def demo_defs)
  have c: "childrenOf (comps builtWorld) 0 = [1, 2]"
    by (simp add: childrenOf_def lookupC_def demo_defs)
  from updateChildComponents_permutation [OF ok ids dist perm]
  have 2: "\<exists>l'. updateChildComponents demoEnv 0 (Some 5) builtWorld =
               (Inr (), builtWorld\<lparr>comps := setChildren 0 l' (comps builtWorld),
                                   trace := trace builtWorld @ zOrderCalls l'\<rparr>) \<and>
            mset l' = {#1, 2#}"
    unfolding c by auto
  have 1: "updateChildComponents demoEnv 0 (Some 5) builtWorld =
     (Inr (),
      builtWorld\<lparr>comps := [Some \<lparr>componentID = ''root'', parentComponent = None,
                                  childComponentList = [2, 1]\<rparr>,
                           Some (button ''b1'' (Some 0)), Some (button ''b2'' (Some 0))],
                 trace := [ToFront 1, ToBehind 2 1]\<rparr>)"
    by (simp add: eval_defs Let_def demo_defs)
  from 1 2 show ?thesis by (rule conjI)
qed

paragraph \<open>The loop under the handler contract\<close>

lemma removeLoop_live:
  "\<forall>i<k. isLive h (cs ! i) \<Longrightarrow> \<exists>r. removeLoop h cs compId k = Inr r"
  by (induction k) (auto simp: isLive_def split: option.splits)

lemma poolInv_live: "poolInv h p pool acc \<Longrightarrow> \<forall>c\<in>set pool. isLive h c"
  by (auto simp: poolInv_def dest: isChildOf_isLive)

lemma poolInv_reuse:
  assumes inv: "poolInv h p pool acc" and ms: "mset pool = add_mset c (mset pool1)"
  shows "poolInv h p pool1 (acc @ [c])"
proof -
  from ms have m: "mset pool = mset (c # pool1)" by simp
  then have s: "set pool = insert c (set pool1)" by (metis list.simps(15) mset_eq_setD)
  from mset_eq_imp_distinct_iff [OF m] have d: "distinct pool \<longleftrightarrow> c \<notin> set pool1 \<and> distinct pool1"
    by simp
  from inv d s show ?thesis
    by (auto simp: poolInv_def)
qed

lemma createNewComponent_contract:
  assumes c: "attachesFreshChild E" and live: "isLive (comps w) p"
  shows "\<exists>c h' l. createNewComponent E t s (Some p) w =
            (Inr c, w\<lparr>comps := setComponentID c (getStateId E s) h',
                       trace := trace w @ [Created t s (Some p) (Some c)]\<rparr>) \<and>
          \<not> isLive (comps w) c \<and> isChildOf h' p c \<and>
          mset l = add_mset c (mset (childrenOf (comps w) p)) \<and>
          lookupC h' p = lookupC (setChildren p l (comps w)) p \<and>
          (\<forall>x. x \<noteq> p \<and> isLive (comps w) x \<longrightarrow> lookupC h' x = lookupC (comps w) x)"
proof -
  obtain r h' where a: "addNewComponentFromState E t s (Some p) (comps w) = (r, h')"
    by (cases "addNewComponentFromState E t s (Some p) (comps w)")
  have k: "case addNewComponentFromState E t s (Some p) (comps w) of
           (None, h') \<Rightarrow> False
         | (Some c, h') \<Rightarrow>
             \<not> isLive (comps w) c \<and> isChildOf h' p c \<and>
             (\<exists>l. mset l = add_mset c (mset (childrenOf (comps w) p)) \<and>
                  lookupC h' p = lookupC (setChildren p l (comps w)) p) \<and>
             (\<forall>x. x \<noteq> p \<and> isLive (comps w) x \<longrightarrow> lookupC h' x = lookupC (comps w) x)"
    by (rule c [unfolded attachesFreshChild_def, rule_format, OF live])
  with a obtain c where r: "r = Some c" by (cases r) auto
  from k a r obtain l where
    f: "\<not> isLive (comps w) c" "isChildOf h' p c"
       "mset l = add_mset c (mset (childrenOf (comps w) p))"
       "lookupC h' p = lookupC (setChildren p l (comps w)) p"
       "\<forall>x. x \<noteq> p \<and> isLive (comps w) x \<longrightarrow> lookupC h' x = lookupC (comps w) x"
    by auto
  from f(2) obtain obj where o: "lookupC h' c = Some obj" "parentComponent obj = Some p"
    by (auto simp: isChildOf_def split: option.splits)
  have "createNewComponent E t s (Some p) w =
            (Inr c, w\<lparr>comps := setComponentID c (getStateId E s) h',
                       trace := trace w @ [Created t s (Some p) (Some c)]\<rparr>)"
    using a r o by (simp add: createNewComponent_def Let_def)
  with f show ?thesis by blast
qed

lemma poolInv_create:
  assumes inv: "poolInv h p pool acc"
      and fresh: "\<not> isLive h c" and ch: "isChildOf h' p c"
      and ms: "mset l = add_mset c (mset (childrenOf h p))"
      and lp: "lookupC h' p = lookupC (setChildren p l h) p"
      and others: "\<forall>x. x \<noteq> p \<and> isLive h x \<longrightarrow> lookupC h' x = lookupC h x"
  shows "poolInv (setComponentID c i h') p pool (acc @ [c])"
proof -
  let ?h2 = "setComponentID c i h'"
  from inv have live: "isLive h p" and pn: "p \<notin> set pool \<union> set acc"
    and d: "distinct (pool @ acc)" and dc: "distinct (childrenOf h p)"
    and sc: "set (childrenOf h p) = set pool \<union> set acc"
    and chs: "\<forall>x \<in> set pool \<union> set acc. isChildOf h p x"
    by (simp_all add: poolInv_def)
  from live fresh have cp: "c \<noteq> p" by auto
  from chs fresh have cn: "c \<notin> set pool \<union> set acc" by (auto dest: isChildOf_isLive)
  from live obtain pobj where po: "lookupC h p = Some pobj" by (auto simp: isLive_def)
  have lp2: "lookupC ?h2 p = Some (pobj\<lparr>childComponentList := l\<rparr>)"
    using cp lp po by (simp add: lookupC_setComponentID lookupC_setChildren)
  then have 1: "isLive ?h2 p" and cl: "childrenOf ?h2 p = l"
    by (simp_all add: isLive_def childrenOf_def)
  from ms have m: "mset l = mset (c # childrenOf h p)" by simp
  then have sl: "set l = insert c (set (childrenOf h p))" by (metis list.simps(15) mset_eq_setD)
  from mset_eq_imp_distinct_iff [OF m] dc cn sc have dl: "distinct l" by simp
  have 6: "\<forall>x \<in> set pool \<union> set (acc @ [c]). isChildOf ?h2 p x"
  proof
    fix x assume x: "x \<in> set pool \<union> set (acc @ [c])"
    show "isChildOf ?h2 p x"
    proof (cases "x = c")
      case True
      with ch show ?thesis
        by (auto simp: isChildOf_def lookupC_setComponentID split: option.splits)
    next
      case False
      with x have xin: "x \<in> set pool \<union> set acc" by auto
      with chs have xc: "isChildOf h p x" by blast
      then have "isLive h x" by (rule isChildOf_isLive)
      moreover from xin pn have "x \<noteq> p" by auto
      ultimately have "lookupC h' x = lookupC h x" using others by blast
      with xc False show ?thesis
        by (simp add: isChildOf_def lookupC_setComponentID)
    qed
  qed
  show ?thesis
    unfolding poolInv_def cl sl sc
    using 1 pn cp d cn dl 6 by auto
qed

paragraph \<open>One turn of the loop, and the whole loop\<close>

lemma jassert_types [simp]: "types (jassert b a w) = types w"
  by (simp add: jassert_def)

lemma jassert_handlerObjects [simp]: "handlerObjects (jassert b a w) = handlerObjects w"
  by (simp add: jassert_def)

lemma removeLoop_nomatch:
  "removeLoop h cs compId k = Inr (None, pool) \<Longrightarrow> \<forall>i<k. \<not> hasID h compId (cs ! i)"
  by (induction k) (auto simp: hasID_def less_Suc_eq split: option.splits if_splits)

lemma removeComponentWithID_cases:
  assumes "\<forall>c\<in>set pool. isLive (comps w) c"
  shows "(\<exists>j<length pool. hasID (comps w) compId (pool ! j) \<and>
            removeComponentWithID pool compId w =
              (Inr (Some (pool ! j), take j pool @ drop (Suc j) pool),
               jassert (compId \<noteq> []) EmptyComponentID w))
         \<or> ((\<forall>c\<in>set pool. \<not> hasID (comps w) compId c) \<and>
            removeComponentWithID pool compId w =
              (Inr (None, pool), jassert (compId \<noteq> []) EmptyComponentID w))"
proof -
  from assms have "\<forall>i<length pool. isLive (comps w) (pool ! i)" by simp
  then obtain r where r: "removeLoop (comps w) pool compId (length pool) = Inr r"
    using removeLoop_live by blast
  obtain found pool1 where fp: "r = (found, pool1)" by (cases r)
  show ?thesis
  proof (cases found)
    case None
    with r fp have 1: "pool1 = pool" by (auto dest: removeLoop_shape_none)
    from r fp None have "\<forall>i<length pool. \<not> hasID (comps w) compId (pool ! i)"
      by (auto dest: removeLoop_nomatch)
    then have "\<forall>c\<in>set pool. \<not> hasID (comps w) compId c"
      by (auto simp: in_set_conv_nth)
    with r fp None 1 show ?thesis by (simp add: removeComponentWithID_def Let_def)
  next
    case (Some c)
    with r fp obtain j where "j < length pool" "c = pool ! j" "pool1 = take j pool @ drop (Suc j) pool"
      "hasID (comps w) compId c"
      by (auto dest: removeLoop_shape)
    with r fp Some show ?thesis by (auto simp: removeComponentWithID_def Let_def)
  qed
qed

lemma keptStates_cong:
  "mset ids = mset ids' \<Longrightarrow> types w' = types w \<Longrightarrow> handlerObjects w' = handlerObjects w \<Longrightarrow>
   keptStates E w ids kids = keptStates E w' ids' kids"
proof (induction kids arbitrary: ids ids')
  case Nil
  show ?case by simp
next
  case (Cons k kids)
  from Cons.prems(1) have s: "set ids = set ids'" by (rule mset_eq_setD)
  from Cons.prems(1) have r: "mset (remove1 x ids) = mset (remove1 x ids')" for x by simp
  have h: "getHandlerForState E w' k = getHandlerForState E w k"
    using Cons.prems(2,3) by (rule getHandlerForState_cong)
  show ?case
    using Cons.IH [OF r Cons.prems(2,3)] Cons.IH [OF Cons.prems] by (simp add: s h)
qed

lemma childStateLoop_step:
  assumes c: "attachesFreshChild E" and inv: "poolInv (comps w) p pool acc"
  shows "\<exists>pool1 new ks w1.
     (\<forall>kids. childStateLoop E p (k # kids) pool acc w = childStateLoop E p kids pool1 (acc @ new) w1) \<and>
     (\<forall>kids. keptStates E w (map (getComponentID (comps w)) pool) (k # kids) =
               ks @ keptStates E w1 (map (getComponentID (comps w1)) pool1) kids) \<and>
     map (getComponentID (comps w1)) new = map (\<lambda>s. Some (getStateId E s)) ks \<and>
     poolInv (comps w1) p pool1 (acc @ new) \<and>
     types w1 = types w \<and> handlerObjects w1 = handlerObjects w \<and>
     (\<forall>x. x \<noteq> p \<and> isLive (comps w) x \<longrightarrow> lookupC (comps w1) x = lookupC (comps w) x) \<and>
     mset pool = mset pool1 + mset (filter (\<lambda>c. c \<in> set pool) new) \<and>
     (\<forall>c\<in>set new. c \<notin> set pool \<longrightarrow> \<not> isLive (comps w) c)"
proof -
  let ?h = "comps w" and ?i = "getStateId E k"
  let ?g = "getComponentID (comps w)"
  let ?w1 = "jassert (?i \<noteq> []) EmptyComponentID w"
  from inv have live: "\<forall>c\<in>set pool. isLive ?h c" by (rule poolInv_live)
  from inv have inv1: "poolInv (comps ?w1) p pool acc" by simp
  from inv have pn: "p \<notin> set pool" by (simp add: poolInv_def)
  from removeComponentWithID_cases [OF live, of ?i]
  show ?thesis
  proof (elim disjE exE conjE)
    fix j
    assume j: "j < length pool" and hid: "hasID ?h ?i (pool ! j)"
      and rm: "removeComponentWithID pool ?i w =
                 (Inr (Some (pool ! j), take j pool @ drop (Suc j) pool), ?w1)"
    let ?c = "pool ! j" and ?pool1 = "take j pool @ drop (Suc j) pool"
    from j have ms: "mset pool = add_mset ?c (mset ?pool1)" by (rule mset_remove_nth)
    from inv1 ms have inv2: "poolInv (comps ?w1) p ?pool1 (acc @ [?c])" by (rule poolInv_reuse)
    from hid have gi: "?g ?c = Some ?i" by (simp add: hasID_getComponentID)
    from j have cin: "?c \<in> set pool" by simp
    with gi have idin: "Some ?i \<in> set (map ?g pool)" by force
    from ms have "mset (map ?g pool) = add_mset (Some ?i) (mset (map ?g ?pool1))"
      using gi by simp
    then have msid: "mset (remove1 (Some ?i) (map ?g pool)) = mset (map ?g ?pool1)" by simp
    have 1: "\<forall>kids. childStateLoop E p (k # kids) pool acc w =
                    childStateLoop E p kids ?pool1 (acc @ [?c]) ?w1"
      using rm by simp
    have 2: "\<forall>kids. keptStates E w (map ?g pool) (k # kids) =
                    [k] @ keptStates E ?w1 (map (getComponentID (comps ?w1)) ?pool1) kids"
    proof
      fix kids
      have "keptStates E w (remove1 (Some ?i) (map ?g pool)) kids =
            keptStates E ?w1 (map ?g ?pool1) kids"
        using msid by (rule keptStates_cong) simp_all
      with idin show "keptStates E w (map ?g pool) (k # kids) =
                    [k] @ keptStates E ?w1 (map (getComponentID (comps ?w1)) ?pool1) kids"
        by simp
    qed
    have 3: "map (getComponentID (comps ?w1)) [?c] = map (\<lambda>s. Some (getStateId E s)) [k]"
      using gi by simp
    have 5: "types ?w1 = types w" and 6: "handlerObjects ?w1 = handlerObjects w" by simp_all
    have 7: "\<forall>x. x \<noteq> p \<and> isLive ?h x \<longrightarrow> lookupC (comps ?w1) x = lookupC ?h x" by simp
    have 8: "mset pool = mset ?pool1 + mset (filter (\<lambda>c. c \<in> set pool) [?c])"
      using ms cin by simp
    have 9: "\<forall>c\<in>set [?c]. c \<notin> set pool \<longrightarrow> \<not> isLive ?h c" using cin by simp
    show ?thesis
      by (rule exI [of _ ?pool1], rule exI [of _ "[?c]"], rule exI [of _ "[k]"], rule exI [of _ ?w1])
         (intro conjI 1 2 3 inv2 5 6 7 8 9)
  next
    assume nm: "\<forall>c\<in>set pool. \<not> hasID ?h ?i c"
      and rm: "removeComponentWithID pool ?i w = (Inr (None, pool), ?w1)"
    from nm have idnot: "Some ?i \<notin> set (map ?g pool)"
      by (auto simp: hasID_getComponentID)
    show ?thesis
    proof (cases "getHandlerForState E w k")
      case None
      let ?w2 = "jassert False UnknownType ?w1"
      have hn: "getHandlerForState E ?w1 k = None"
        using None by (simp add: getHandlerForState_def)
      have 1: "\<forall>kids. childStateLoop E p (k # kids) pool acc w =
                      childStateLoop E p kids pool (acc @ []) ?w2"
        using rm hn by simp
      have 2: "\<forall>kids. keptStates E w (map ?g pool) (k # kids) =
                    [] @ keptStates E ?w2 (map (getComponentID (comps ?w2)) pool) kids"
      proof
        fix kids
        have "keptStates E w (map ?g pool) kids = keptStates E ?w2 (map ?g pool) kids"
          by (rule keptStates_cong) simp_all
        with idnot None show "keptStates E w (map ?g pool) (k # kids) =
                    [] @ keptStates E ?w2 (map (getComponentID (comps ?w2)) pool) kids"
          by simp
      qed
      have 3: "map (getComponentID (comps ?w2)) [] = map (\<lambda>s. Some (getStateId E s)) []" by simp
      from inv have 4: "poolInv (comps ?w2) p pool (acc @ [])" by simp
      have 5: "types ?w2 = types w" and 6: "handlerObjects ?w2 = handlerObjects w" by simp_all
      have 7: "\<forall>x. x \<noteq> p \<and> isLive ?h x \<longrightarrow> lookupC (comps ?w2) x = lookupC ?h x" by simp
      have 8: "mset pool = mset pool + mset (filter (\<lambda>c. c \<in> set pool) [])" by simp
      have 9: "\<forall>c\<in>set []. c \<notin> set pool \<longrightarrow> \<not> isLive ?h c" by simp
      show ?thesis
        by (rule exI [of _ pool], rule exI [of _ "[]"], rule exI [of _ "[]"], rule exI [of _ ?w2])
           (intro conjI 1 2 3 4 5 6 7 8 9)
    next
      case (Some t)
      have ht: "getHandlerForState E ?w1 k = Some t"
        using Some by (simp add: getHandlerForState_def)
      from inv1 have lp: "isLive (comps ?w1) p" by (simp add: poolInv_def)
      from createNewComponent_contract [OF c lp, of t k] obtain c h' l where
        cr: "createNewComponent E t k (Some p) ?w1 =
               (Inr c, ?w1\<lparr>comps := setComponentID c ?i h',
                           trace := trace ?w1 @ [Created t k (Some p) (Some c)]\<rparr>)"
        and f: "\<not> isLive (comps ?w1) c" "isChildOf h' p c"
          "mset l = add_mset c (mset (childrenOf (comps ?w1) p))"
          "lookupC h' p = lookupC (setChildren p l (comps ?w1)) p"
          "\<forall>x. x \<noteq> p \<and> isLive (comps ?w1) x \<longrightarrow> lookupC h' x = lookupC (comps ?w1) x"
        by blast
      let ?w2 = "?w1\<lparr>comps := setComponentID c ?i h',
                           trace := trace ?w1 @ [Created t k (Some p) (Some c)]\<rparr>"
      from poolInv_create [OF inv1 f, of ?i]
      have 4: "poolInv (comps ?w2) p pool (acc @ [c])" by simp
      from f(1) have fresh: "\<not> isLive ?h c" by simp
      with live have cn: "c \<notin> set pool" by blast
      have 7: "\<forall>x. x \<noteq> p \<and> isLive ?h x \<longrightarrow> lookupC (comps ?w2) x = lookupC ?h x"
      proof (intro allI impI)
        fix x assume x: "x \<noteq> p \<and> isLive ?h x"
        with fresh have "x \<noteq> c" by auto
        moreover from x f(5) have "lookupC h' x = lookupC ?h x" by simp
        ultimately show "lookupC (comps ?w2) x = lookupC ?h x"
          by (simp add: lookupC_setComponentID)
      qed
      have gp: "map (getComponentID (comps ?w2)) pool = map ?g pool"
      proof (rule map_cong [OF refl])
        fix x assume x: "x \<in> set pool"
        with live pn have "x \<noteq> p \<and> isLive ?h x" by auto
        with 7 have "lookupC (comps ?w2) x = lookupC ?h x" by blast
        then show "getComponentID (comps ?w2) x = ?g x" by (simp add: getComponentID_def)
      qed
      from f(2) obtain obj where "lookupC h' c = Some obj"
        by (auto simp: isChildOf_def split: option.splits)
      then have gc: "getComponentID (comps ?w2) c = Some ?i"
        by (simp add: getComponentID_def lookupC_setComponentID)
      have 1: "\<forall>kids. childStateLoop E p (k # kids) pool acc w =
                      childStateLoop E p kids pool (acc @ [c]) ?w2"
        using rm ht cr by simp
      have 2: "\<forall>kids. keptStates E w (map ?g pool) (k # kids) =
                    [k] @ keptStates E ?w2 (map (getComponentID (comps ?w2)) pool) kids"
      proof
        fix kids
        have a: "keptStates E w (map ?g pool) kids = keptStates E ?w2 (map ?g pool) kids"
          by (rule keptStates_cong) simp_all
        show "keptStates E w (map ?g pool) (k # kids) =
                    [k] @ keptStates E ?w2 (map (getComponentID (comps ?w2)) pool) kids"
          unfolding gp using idnot Some a by simp
      qed
      have 3: "map (getComponentID (comps ?w2)) [c] = map (\<lambda>s. Some (getStateId E s)) [k]"
        using gc by simp
      have 5: "types ?w2 = types w" and 6: "handlerObjects ?w2 = handlerObjects w" by simp_all
      have 8: "mset pool = mset pool + mset (filter (\<lambda>c. c \<in> set pool) [c])" using cn by simp
      have 9: "\<forall>x\<in>set [c]. x \<notin> set pool \<longrightarrow> \<not> isLive ?h x" using fresh by simp
      show ?thesis
        by (rule exI [of _ pool], rule exI [of _ "[c]"], rule exI [of _ "[k]"], rule exI [of _ ?w2])
           (intro conjI 1 2 3 4 5 6 7 8 9)
    qed
  qed
qed

text \<open>
  The whole loop under the handler contract: it ends without an error; the pool
  that is left and the entries of the result that come from the pool make up the
  old pool, each entry once; the other entries of the result were not live
  before; the result carries the identifiers of the states that get an instance,
  in the order of the new states; and no component that was live, the parent
  apart, is touched.
\<close>

lemma childStateLoop_pass:
  assumes c: "attachesFreshChild E"
  shows "poolInv (comps w) p pool acc \<Longrightarrow>
     \<exists>pool' added w'.
       childStateLoop E p kids pool acc w = (Inr (pool', acc @ added), w') \<and>
       poolInv (comps w') p pool' (acc @ added) \<and>
       types w' = types w \<and> handlerObjects w' = handlerObjects w \<and>
       (\<forall>x. x \<noteq> p \<and> isLive (comps w) x \<longrightarrow> lookupC (comps w') x = lookupC (comps w) x) \<and>
       mset pool = mset pool' + mset (filter (\<lambda>c. c \<in> set pool) added) \<and>
       (\<forall>c\<in>set added. c \<notin> set pool \<longrightarrow> \<not> isLive (comps w) c) \<and>
       map (getComponentID (comps w')) added =
         map (\<lambda>s. Some (getStateId E s)) (keptStates E w (map (getComponentID (comps w)) pool) kids)"
proof (induction kids arbitrary: pool acc w)
  case Nil
  then show ?case by simp
next
  case (Cons k kids)
  from childStateLoop_step [OF c Cons.prems, of k] obtain pool1 new ks w1 where
    s1: "\<forall>kids. childStateLoop E p (k # kids) pool acc w = childStateLoop E p kids pool1 (acc @ new) w1"
    and s2: "\<forall>kids. keptStates E w (map (getComponentID (comps w)) pool) (k # kids) =
               ks @ keptStates E w1 (map (getComponentID (comps w1)) pool1) kids"
    and s3: "map (getComponentID (comps w1)) new = map (\<lambda>s. Some (getStateId E s)) ks"
    and s4: "poolInv (comps w1) p pool1 (acc @ new)"
    and s5: "types w1 = types w" and s6: "handlerObjects w1 = handlerObjects w"
    and s7: "\<forall>x. x \<noteq> p \<and> isLive (comps w) x \<longrightarrow> lookupC (comps w1) x = lookupC (comps w) x"
    and s8: "mset pool = mset pool1 + mset (filter (\<lambda>c. c \<in> set pool) new)"
    and s9: "\<forall>c\<in>set new. c \<notin> set pool \<longrightarrow> \<not> isLive (comps w) c"
    by (elim exE conjE) (rule that)
  from Cons.IH [OF s4] obtain pool' added w' where
    i1: "childStateLoop E p kids pool1 (acc @ new) w1 = (Inr (pool', (acc @ new) @ added), w')"
    and i4: "poolInv (comps w') p pool' ((acc @ new) @ added)"
    and i5: "types w' = types w1" and i6: "handlerObjects w' = handlerObjects w1"
    and i7: "\<forall>x. x \<noteq> p \<and> isLive (comps w1) x \<longrightarrow> lookupC (comps w') x = lookupC (comps w1) x"
    and i8: "mset pool1 = mset pool' + mset (filter (\<lambda>c. c \<in> set pool1) added)"
    and i9: "\<forall>c\<in>set added. c \<notin> set pool1 \<longrightarrow> \<not> isLive (comps w1) c"
    and i3: "map (getComponentID (comps w')) added =
         map (\<lambda>s. Some (getStateId E s)) (keptStates E w1 (map (getComponentID (comps w1)) pool1) kids)"
    by (elim exE conjE) (rule that)
  from i4 have pnot: "p \<notin> set pool' \<union> set (acc @ new @ added)"
    and dist: "distinct (pool' @ acc @ new @ added)"
    by (simp_all add: poolInv_def)
  from s4 have ch1: "\<forall>x\<in>set pool1 \<union> set (acc @ new). isChildOf (comps w1) p x"
    by (simp add: poolInv_def)
  from s8 have sub1: "set pool1 \<subseteq> set pool"
    by (metis mset_subset_eq_add_left set_mset_mono set_mset_mset)
  have 1: "childStateLoop E p (k # kids) pool acc w = (Inr (pool', acc @ (new @ added)), w')"
    using s1 i1 by simp
  have 2: "poolInv (comps w') p pool' (acc @ (new @ added))" using i4 by simp
  have 3: "types w' = types w" and 4: "handlerObjects w' = handlerObjects w"
    using s5 s6 i5 i6 by simp_all
  have 5: "\<forall>x. x \<noteq> p \<and> isLive (comps w) x \<longrightarrow> lookupC (comps w') x = lookupC (comps w) x"
  proof (intro allI impI)
    fix x assume x: "x \<noteq> p \<and> isLive (comps w) x"
    with s7 have a: "lookupC (comps w1) x = lookupC (comps w) x" by blast
    with x have "x \<noteq> p \<and> isLive (comps w1) x" by (simp add: isLive_def)
    with i7 a show "lookupC (comps w') x = lookupC (comps w) x" by simp
  qed
  have fc: "filter (\<lambda>c. c \<in> set pool) added = filter (\<lambda>c. c \<in> set pool1) added"
  proof (rule filter_cong [OF refl])
    fix x assume x: "x \<in> set added"
    show "(x \<in> set pool) = (x \<in> set pool1)"
    proof
      assume xp: "x \<in> set pool"
      show "x \<in> set pool1"
      proof (rule ccontr)
        assume n: "x \<notin> set pool1"
        from xp have "x \<in># mset pool" by simp
        with s8 n have "x \<in># mset (filter (\<lambda>c. c \<in> set pool) new)" by simp
        then have "x \<in> set new" by simp
        with x dist show False by auto
      qed
    next
      assume "x \<in> set pool1"
      with sub1 show "x \<in> set pool" by blast
    qed
  qed
  have 6: "mset pool = mset pool' + mset (filter (\<lambda>c. c \<in> set pool) (new @ added))"
    using s8 i8 by (simp add: fc)
  have 7: "\<forall>c\<in>set (new @ added). c \<notin> set pool \<longrightarrow> \<not> isLive (comps w) c"
  proof (intro ballI impI)
    fix x assume x: "x \<in> set (new @ added)" and np: "x \<notin> set pool"
    show "\<not> isLive (comps w) x"
    proof (cases "x \<in> set new")
      case True
      with s9 np show ?thesis by blast
    next
      case False
      with x have xa: "x \<in> set added" by simp
      from np sub1 have "x \<notin> set pool1" by blast
      with i9 xa have n1: "\<not> isLive (comps w1) x" by blast
      from xa pnot have "x \<noteq> p" by auto
      show ?thesis
      proof
        assume "isLive (comps w) x"
        with \<open>x \<noteq> p\<close> s7 have "lookupC (comps w1) x = lookupC (comps w) x" by blast
        with \<open>isLive (comps w) x\<close> n1 show False by (simp add: isLive_def)
      qed
    qed
  qed
  have gn: "map (getComponentID (comps w')) new = map (getComponentID (comps w1)) new"
  proof (rule map_cong [OF refl])
    fix x assume x: "x \<in> set new"
    with ch1 have "isChildOf (comps w1) p x" by simp
    then have "isLive (comps w1) x" by (rule isChildOf_isLive)
    moreover from x pnot have "x \<noteq> p" by auto
    ultimately have "lookupC (comps w') x = lookupC (comps w1) x" using i7 by blast
    then show "getComponentID (comps w') x = getComponentID (comps w1) x"
      by (simp add: getComponentID_def)
  qed
  have 8: "map (getComponentID (comps w')) (new @ added) =
         map (\<lambda>s. Some (getStateId E s))
           (keptStates E w (map (getComponentID (comps w)) pool) (k # kids))"
    by (simp only: s2 [rule_format] map_append gn s3 i3)
  show ?case
    by (rule exI [of _ pool'], rule exI [of _ "new @ added"], rule exI [of _ w'])
       (intro conjI 1 2 3 4 5 6 7 8)
qed

paragraph \<open>The order after the pass\<close>

lemma familyOK_poolInv: "familyOK h p \<Longrightarrow> poolInv h p (childrenOf h p) []"
  by (simp add: familyOK_def poolInv_def)

lemma finish_pass:
  assumes inv: "poolInv (comps w1) parent pool acc"
      and g: "\<forall>c\<in>set pool. \<forall>x\<in>set (childrenOf (comps w1) c). x \<noteq> parent \<and> x \<notin> set pool \<union> set acc"
  shows "\<exists>w2 w'. deleteAllObjects pool w1 = (Inr (), w2) \<and>
                 zOrderPass acc w2 = (Inr (), w') \<and>
                 w' = w1\<lparr>comps := comps w', trace := trace w1 @ map Deleted (rev pool) @ zOrderCalls acc\<rparr> \<and>
                 childrenOf (comps w') parent = acc \<and> distinct acc \<and>
                 (\<forall>c\<in>set acc. isChildOf (comps w') parent c) \<and>
                 (\<forall>x. lookupC (comps w') x =
                    (if x \<in> set pool then None
                     else if x = parent
                     then map_option (\<lambda>obj. obj\<lparr>childComponentList := acc\<rparr>) (lookupC (comps w1) parent)
                     else if \<exists>c\<in>set pool. x \<in> set (childrenOf (comps w1) c)
                     then map_option (\<lambda>obj. obj\<lparr>parentComponent := None\<rparr>) (lookupC (comps w1) x)
                     else lookupC (comps w1) x))"
proof -
  let ?h1 = "comps w1" and ?l1 = "childrenOf (comps w1) parent"
  from inv have live: "isLive ?h1 parent" and pn: "parent \<notin> set pool \<union> set acc"
    and d: "distinct (pool @ acc)" and dc: "distinct ?l1"
    and sc: "set ?l1 = set pool \<union> set acc"
    and chs: "\<forall>x \<in> set pool \<union> set acc. isChildOf ?h1 parent x"
    by (simp_all add: poolInv_def)
  from pn have pn': "parent \<notin> set (rev pool)" by simp
  from d have d': "distinct (rev pool)" by simp
  from chs have ch': "\<forall>c\<in>set (rev pool). isChildOf ?h1 parent c" by simp
  from g have g': "\<forall>c\<in>set (rev pool). \<forall>x\<in>set (childrenOf ?h1 c). x \<noteq> parent \<and> x \<notin> set (rev pool)"
    by simp
  from deleteEach_children [OF pn' d' live ch' g'] obtain h2 where
    del: "deleteEach (rev pool) w1 = (Inr (), w1\<lparr>comps := h2, trace := trace w1 @ map Deleted (rev pool)\<rparr>)"
    and look0: "\<forall>x. lookupC h2 x =
                 (if x \<in> set (rev pool) then None
                  else if x = parent
                  then map_option (\<lambda>obj. obj\<lparr>childComponentList :=
                                            filter (\<lambda>y. y \<notin> set (rev pool)) (childComponentList obj)\<rparr>)
                         (lookupC ?h1 parent)
                  else if \<exists>c\<in>set (rev pool). x \<in> set (childrenOf ?h1 c)
                  then map_option (\<lambda>obj. obj\<lparr>parentComponent := None\<rparr>) (lookupC ?h1 x)
                  else lookupC ?h1 x)"
    by blast
  from look0 have look: "\<forall>x. lookupC h2 x =
                 (if x \<in> set pool then None
                  else if x = parent
                  then map_option (\<lambda>obj. obj\<lparr>childComponentList :=
                                            filter (\<lambda>y. y \<notin> set pool) (childComponentList obj)\<rparr>)
                         (lookupC ?h1 parent)
                  else if \<exists>c\<in>set pool. x \<in> set (childrenOf ?h1 c)
                  then map_option (\<lambda>obj. obj\<lparr>parentComponent := None\<rparr>) (lookupC ?h1 x)
                  else lookupC ?h1 x)"
    by simp
  let ?w2 = "w1\<lparr>comps := h2, trace := trace w1 @ map Deleted (rev pool)\<rparr>"
  from live obtain pobj where po: "lookupC ?h1 parent = Some pobj" by (auto simp: isLive_def)
  then have l1: "childComponentList pobj = ?l1" by (simp add: childrenOf_def)
  have lp2: "lookupC h2 parent = Some (pobj\<lparr>childComponentList := filter (\<lambda>y. y \<notin> set pool) ?l1\<rparr>)"
    using look [rule_format, of parent] pn po l1 by simp
  then have live2: "isLive h2 parent"
    and c2: "childrenOf h2 parent = filter (\<lambda>y. y \<notin> set pool) ?l1"
    by (simp_all add: isLive_def childrenOf_def)
  have dl2: "distinct (childrenOf h2 parent)" using dc by (simp add: c2)
  from d have da: "distinct acc" by simp
  from d sc have s2: "set (childrenOf h2 parent) = set acc" by (auto simp: c2)
  then have sub: "set acc \<subseteq> set (childrenOf h2 parent)" by simp
  have same: "lookupC h2 x = lookupC ?h1 x" if x: "x \<in> set acc" for x
  proof -
    from x d pn have "x \<notin> set pool" "x \<noteq> parent" by auto
    moreover from x g have "\<not> (\<exists>c\<in>set pool. x \<in> set (childrenOf ?h1 c))" by blast
    ultimately show ?thesis using look [rule_format, of x] by simp
  qed
  have ch2: "\<forall>c\<in>set acc. isChildOf h2 parent c"
    using chs same by (simp add: isChildOf_def)
  have f: "filter (\<lambda>x. x \<notin> set acc) (childrenOf h2 parent) = []"
    using s2 by (simp add: filter_empty_conv)
  let ?w' = "?w2\<lparr>comps := setChildren parent acc h2, trace := trace ?w2 @ zOrderCalls acc\<rparr>"
  have z: "zOrderPass acc ?w2 = (Inr (), ?w')"
    using zOrderPass_order [of ?w2 parent acc] live2 dl2 da sub ch2 f by simp
  have 1: "deleteAllObjects pool w1 = (Inr (), ?w2)"
    unfolding deleteAllObjects_def by (rule del)
  have 2: "?w' = w1\<lparr>comps := comps ?w', trace := trace w1 @ map Deleted (rev pool) @ zOrderCalls acc\<rparr>"
    by simp
  have 3: "childrenOf (comps ?w') parent = acc" using live2 by (simp add: childrenOf_setChildren)
  have 4: "\<forall>c\<in>set acc. isChildOf (comps ?w') parent c" using ch2 by simp
  have 5: "\<forall>x. lookupC (comps ?w') x =
                    (if x \<in> set pool then None
                     else if x = parent
                     then map_option (\<lambda>obj. obj\<lparr>childComponentList := acc\<rparr>) (lookupC ?h1 parent)
                     else if \<exists>c\<in>set pool. x \<in> set (childrenOf ?h1 c)
                     then map_option (\<lambda>obj. obj\<lparr>parentComponent := None\<rparr>) (lookupC ?h1 x)
                     else lookupC ?h1 x)"
  proof
    fix x
    show "lookupC (comps ?w') x =
                    (if x \<in> set pool then None
                     else if x = parent
                     then map_option (\<lambda>obj. obj\<lparr>childComponentList := acc\<rparr>) (lookupC ?h1 parent)
                     else if \<exists>c\<in>set pool. x \<in> set (childrenOf ?h1 c)
                     then map_option (\<lambda>obj. obj\<lparr>parentComponent := None\<rparr>) (lookupC ?h1 x)
                     else lookupC ?h1 x)"
    proof (cases "x = parent")
      case True
      with pn lp2 po show ?thesis by (simp add: lookupC_setChildren)
    next
      case False
      then show ?thesis using look [rule_format, of x] by (simp add: lookupC_setChildren)
    qed
  qed
  show ?thesis
    by (rule exI [of _ ?w2], rule exI [of _ ?w']) (intro conjI 1 z 2 3 da 4 5)
qed

lemma updateChildComponents_unfold:
  assumes p: "lookupC (comps w) parent = Some p"
      and loop: "childStateLoop E parent (getChildren E children) (childComponentList p) [] w =
                   (Inr (pool, acc), w1)"
      and del: "deleteAllObjects pool w1 = (Inr (), w2)"
  shows "updateChildComponents E parent children w = zOrderPass acc w2"
  unfolding updateChildComponents_def
  by (simp only: p option.case loop prod.case sum.case del)

text \<open>
  The whole of \<open>updateChildComponents\<close> under the handler contract, on a parent
  whose children are well formed.
\<close>

lemma updateChildComponents_pass:
  assumes c: "attachesFreshChild E" and ok: "familyTree (comps w) parent"
  shows "\<exists>pool' acc w1 w'.
           childStateLoop E parent (getChildren E children) (childrenOf (comps w) parent) [] w =
             (Inr (pool', acc), w1) \<and>
           updateChildComponents E parent children w = (Inr (), w') \<and>
           w' = w1\<lparr>comps := comps w', trace := trace w1 @ map Deleted (rev pool') @ zOrderCalls acc\<rparr> \<and>
           childrenOf (comps w') parent = acc \<and> distinct acc \<and>
           (\<forall>c\<in>set acc. isChildOf (comps w') parent c) \<and>
           (\<forall>c\<in>set pool'. \<not> isLive (comps w') c) \<and>
           set pool' \<inter> set acc = {} \<and>
           mset (childrenOf (comps w) parent) =
             mset pool' + mset (filter (\<lambda>c. c \<in> set (childrenOf (comps w) parent)) acc) \<and>
           (\<forall>c\<in>set acc. c \<notin> set (childrenOf (comps w) parent) \<longrightarrow> \<not> isLive (comps w) c) \<and>
           map (getComponentID (comps w')) acc =
             map (\<lambda>s. Some (getStateId E s))
               (keptStates E w (map (getComponentID (comps w)) (childrenOf (comps w) parent))
                  (getChildren E children))"
proof -
  let ?h = "comps w"
  let ?l = "childrenOf (comps w) parent"
  from ok have fo: "familyOK ?h parent" by (rule familyTree_familyOK)
  from fo obtain p where p: "lookupC (comps w) parent = Some p"
    by (auto simp: familyOK_def isLive_def)
  then have l: "childComponentList p = ?l" by (simp add: childrenOf_def)
  from fo have pn0: "parent \<notin> set ?l" and ch0: "\<forall>x\<in>set ?l. isChildOf ?h parent x"
    by (simp_all add: familyOK_def)
  from fo have "poolInv (comps w) parent ?l []" by (rule familyOK_poolInv)
  from childStateLoop_pass [OF c this, of "getChildren E children"] obtain pool' acc w1 where
    loop: "childStateLoop E parent (getChildren E children) ?l [] w = (Inr (pool', [] @ acc), w1)"
    and inv: "poolInv (comps w1) parent pool' ([] @ acc)"
    and frame: "\<forall>x. x \<noteq> parent \<and> isLive ?h x \<longrightarrow> lookupC (comps w1) x = lookupC ?h x"
    and ms: "mset ?l = mset pool' + mset (filter (\<lambda>c. c \<in> set ?l) acc)"
    and fresh: "\<forall>c\<in>set acc. c \<notin> set ?l \<longrightarrow> \<not> isLive ?h c"
    and ids: "map (getComponentID (comps w1)) acc =
                map (\<lambda>s. Some (getStateId E s))
                  (keptStates E w (map (getComponentID ?h) ?l) (getChildren E children))"
    by (elim exE conjE) (rule that)
  from loop have loop1: "childStateLoop E parent (getChildren E children) ?l [] w = (Inr (pool', acc), w1)"
    by simp
  from inv have inv1: "poolInv (comps w1) parent pool' acc" by simp
  from inv1 have pn: "parent \<notin> set pool' \<union> set acc" and d: "distinct (pool' @ acc)"
    by (simp_all add: poolInv_def)
  from ms have sub: "set pool' \<subseteq> set ?l"
    by (metis mset_subset_eq_add_left set_mset_mono set_mset_mset)
  from familyTree_tree [OF ok]
  have tree: "\<forall>c\<in>set ?l. \<not> isChildOf ?h c parent \<and> (\<forall>x\<in>set (childrenOf ?h c). isChildOf ?h c x)" .
  from tree_disjoint [OF ch0 pn0 tree]
  have dj: "\<forall>c\<in>set ?l. \<forall>x\<in>set (childrenOf ?h c). x \<noteq> parent \<and> x \<notin> set ?l" .
  have same: "lookupC (comps w1) x = lookupC ?h x" if "x \<in> set ?l" for x
  proof -
    from that ch0 have "isLive ?h x" by (blast dest: isChildOf_isLive)
    moreover from that pn0 have "x \<noteq> parent" by auto
    ultimately show ?thesis using frame by blast
  qed
  have g: "\<forall>c\<in>set pool'. \<forall>x\<in>set (childrenOf (comps w1) c). x \<noteq> parent \<and> x \<notin> set pool' \<union> set acc"
  proof (intro ballI)
    fix c x
    assume cp: "c \<in> set pool'" and x: "x \<in> set (childrenOf (comps w1) c)"
    from cp sub have cl: "c \<in> set ?l" by blast
    from same [OF cl] have "childrenOf (comps w1) c = childrenOf ?h c" by (simp add: childrenOf_def)
    with x have x0: "x \<in> set (childrenOf ?h c)" by simp
    with dj cl have a: "x \<noteq> parent" "x \<notin> set ?l" by auto
    from tree cl x0 have "isChildOf ?h c x" by blast
    then have "isLive ?h x" by (rule isChildOf_isLive)
    with fresh a(2) have "x \<notin> set acc" by blast
    with a sub show "x \<noteq> parent \<and> x \<notin> set pool' \<union> set acc" by blast
  qed
  from finish_pass [OF inv1 g] obtain w2 w' where
    f: "deleteAllObjects pool' w1 = (Inr (), w2)"
       "zOrderPass acc w2 = (Inr (), w')"
       "w' = w1\<lparr>comps := comps w', trace := trace w1 @ map Deleted (rev pool') @ zOrderCalls acc\<rparr>"
       "childrenOf (comps w') parent = acc" "distinct acc"
       "\<forall>c\<in>set acc. isChildOf (comps w') parent c"
    and look: "\<forall>x. lookupC (comps w') x =
                    (if x \<in> set pool' then None
                     else if x = parent
                     then map_option (\<lambda>obj. obj\<lparr>childComponentList := acc\<rparr>) (lookupC (comps w1) parent)
                     else if \<exists>c\<in>set pool'. x \<in> set (childrenOf (comps w1) c)
                     then map_option (\<lambda>obj. obj\<lparr>parentComponent := None\<rparr>) (lookupC (comps w1) x)
                     else lookupC (comps w1) x)"
    by (elim exE conjE) (rule that)
  from loop1 have loop': "childStateLoop E parent (getChildren E children) (childComponentList p) [] w =
                   (Inr (pool', acc), w1)"
    by (simp only: l)
  from updateChildComponents_unfold [OF p loop' f(1)] f(2)
  have u: "updateChildComponents E parent children w = (Inr (), w')" by simp
  have dead: "\<forall>c\<in>set pool'. \<not> isLive (comps w') c"
    using look by (simp add: isLive_def)
  from d have disj: "set pool' \<inter> set acc = {}" by auto
  have ga: "map (getComponentID (comps w')) acc = map (getComponentID (comps w1)) acc"
  proof (rule map_cong [OF refl])
    fix x assume x: "x \<in> set acc"
    with d pn have "x \<notin> set pool'" "x \<noteq> parent" by auto
    moreover from x g have "\<not> (\<exists>c\<in>set pool'. x \<in> set (childrenOf (comps w1) c))" by blast
    ultimately have "lookupC (comps w') x = lookupC (comps w1) x"
      using look [rule_format, of x] by simp
    then show "getComponentID (comps w') x = getComponentID (comps w1) x"
      by (simp add: getComponentID_def)
  qed
  have ids': "map (getComponentID (comps w')) acc =
                map (\<lambda>s. Some (getStateId E s))
                  (keptStates E w (map (getComponentID ?h) ?l) (getChildren E children))"
    by (simp only: ga ids)
  show ?thesis
    by (rule exI [of _ pool'], rule exI [of _ acc], rule exI [of _ w1], rule exI [of _ w'])
       (intro conjI loop1 u f(3) f(4) f(5) f(6) dead disj ms fresh ids')
qed

lemma keptStates_all:
  "\<forall>s\<in>set kids. getHandlerForState E w s \<noteq> None \<Longrightarrow> keptStates E w ids kids = kids"
  by (induction kids arbitrary: ids) auto

text \<open>
  Claim C2. Let the handlers keep the contract of their creation operation and
  let the children of the parent be well formed. Then \<open>updateChildComponents\<close>
  returns, and with \<open>acc\<close> the result list of its loop:

  \<^item> the last calls it makes, after the loop and the release of the pool, are
    exactly \<open>zOrderCalls acc\<close>: \<open>toFront\<close> on the last element, then \<open>toBehind\<close> on
    each preceding element with its successor;
  \<^item> the elements of \<open>acc\<close> carry, one by one and in this order, the ids of the new
    child states that get an instance (\<open>keptStates\<close>), which are all the new states
    when each has a handler;
  \<^item> in the end the child list of the parent, read back to front, is \<open>acc\<close>
    itself, whatever the order of the children was before: of two elements the
    earlier one is stacked behind the later one, and the last one is frontmost.

  So the stacking order of the instances is the order of the new states.
\<close>

theorem updateChildComponents_zorder:
  assumes c: "attachesFreshChild E" and ok: "familyTree (comps w) parent"
  shows "\<exists>pool' acc w1 w'.
           childStateLoop E parent (getChildren E children) (childrenOf (comps w) parent) [] w =
             (Inr (pool', acc), w1) \<and>
           updateChildComponents E parent children w = (Inr (), w') \<and>
           trace w' = trace w1 @ map Deleted (rev pool') @ zOrderCalls acc \<and>
           map (getComponentID (comps w')) acc =
             map (\<lambda>s. Some (getStateId E s))
               (keptStates E w (map (getComponentID (comps w)) (childrenOf (comps w) parent))
                  (getChildren E children)) \<and>
           ((\<forall>s\<in>set (getChildren E children). getHandlerForState E w s \<noteq> None) \<longrightarrow>
              map (getComponentID (comps w')) (childrenOf (comps w') parent) =
                map (\<lambda>s. Some (getStateId E s)) (getChildren E children)) \<and>
           childrenOf (comps w') parent = acc \<and> distinct acc \<and>
           (\<forall>c\<in>set acc. isChildOf (comps w') parent c) \<and>
           (\<forall>i j. i < j \<and> j < length acc \<longrightarrow> isBehind (comps w') parent (acc ! i) (acc ! j))"
proof -
  from updateChildComponents_pass [OF c ok, of children] obtain pool' acc w1 w' where
    loop: "childStateLoop E parent (getChildren E children) (childrenOf (comps w) parent) [] w =
             (Inr (pool', acc), w1)"
    and u: "updateChildComponents E parent children w = (Inr (), w')"
    and w': "w' = w1\<lparr>comps := comps w', trace := trace w1 @ map Deleted (rev pool') @ zOrderCalls acc\<rparr>"
    and ch: "childrenOf (comps w') parent = acc" and d: "distinct acc"
    and co: "\<forall>c\<in>set acc. isChildOf (comps w') parent c"
    and ids: "map (getComponentID (comps w')) acc =
             map (\<lambda>s. Some (getStateId E s))
               (keptStates E w (map (getComponentID (comps w)) (childrenOf (comps w) parent))
                  (getChildren E children))"
    by (elim exE conjE) (rule that)
  have tr: "trace w' = trace w1 @ map Deleted (rev pool') @ zOrderCalls acc"
    by (subst w') simp
  have al: "(\<forall>s\<in>set (getChildren E children). getHandlerForState E w s \<noteq> None) \<longrightarrow>
              map (getComponentID (comps w')) (childrenOf (comps w') parent) =
                map (\<lambda>s. Some (getStateId E s)) (getChildren E children)"
    by (simp only: ch ids) (simp add: keptStates_all)
  have bh: "\<forall>i j. i < j \<and> j < length acc \<longrightarrow> isBehind (comps w') parent (acc ! i) (acc ! j)"
    unfolding isBehind_def ch by blast
  show ?thesis
    by (rule exI [of _ pool'], rule exI [of _ acc], rule exI [of _ w1], rule exI [of _ w'])
       (intro conjI loop u tr ids al ch d co bh)
qed

lemma appendComponent_contract: "attachesFreshChild demoEnv"
  unfolding attachesFreshChild_def
proof (intro allI impI)
  fix t s p h
  assume live: "isLive h p"
  then obtain pobj where po: "lookupC h p = Some pobj" by (auto simp: isLive_def)
  then have pl: "p < length h" by (rule lookupC_Some_less)
  let ?c = "length h"
  let ?l = "childComponentList pobj @ [?c]"
  let ?new = "\<lparr>componentID = [], parentComponent = Some p, childComponentList = []\<rparr>"
  let ?h' = "h[p := Some (pobj\<lparr>childComponentList := ?l\<rparr>)] @ [Some ?new]"
  have a: "addNewComponentFromState demoEnv t s (Some p) h = (Some ?c, ?h')"
    using po by (simp add: demoEnv_def appendComponent_def)
  have 1: "\<not> isLive h ?c" by (simp add: isLive_def lookupC_def)
  have 2: "isChildOf ?h' p ?c" by (simp add: isChildOf_def lookupC_def nth_append)
  have 3: "mset ?l = add_mset ?c (mset (childrenOf h p))" using po by (simp add: childrenOf_def)
  have 4: "lookupC ?h' p = lookupC (setChildren p ?l h) p"
    using po pl by (simp add: lookupC_setChildren) (simp add: lookupC_def nth_append)
  have 5: "\<forall>x. x \<noteq> p \<and> isLive h x \<longrightarrow> lookupC ?h' x = lookupC h x"
    by (auto simp: isLive_def lookupC_def nth_append)
  from 1 2 3 4 5 show "case addNewComponentFromState demoEnv t s (Some p) h of
           (None, h') \<Rightarrow> False
         | (Some c, h') \<Rightarrow>
             \<not> isLive h c \<and> isChildOf h' p c \<and>
             (\<exists>l. mset l = add_mset c (mset (childrenOf h p)) \<and>
                  lookupC h' p = lookupC (setChildren p l h) p) \<and>
             (\<forall>x. x \<noteq> p \<and> isLive h x \<longrightarrow> lookupC h' x = lookupC h x)"
    unfolding a by (simp only: prod.case option.case) blast
qed



text \<open>
  Claim C6. For a pool of live components and any identifier: when some pool
  member has the identifier, \<open>removeComponentWithID\<close> returns the one with the
  highest index, and the pool that is left is the old pool without that one entry;
  when no member has it, the call returns null and leaves the pool as it was. Over
  a whole run of the loop of \<open>updateChildComponents\<close>, with handlers that keep
  their creation contract and a pool of children of the parent, none listed twice:
  the pool that is left and the result have no entry in common and none twice, and
  the pool that is left together with the entries of the result that come from the
  pool is the old pool, entry for entry; the other entries of the result were not
  live before. So an entry of the pool is handed out at most once. Whatever the
  handlers do, the pool only shrinks, and each entry that left it was added to the
  result.
\<close>

theorem removeComponentWithID_last_match:
  assumes live: "\<forall>c \<in> set pool. isLive (comps w) c"
  shows "(\<forall>i<length pool.
            hasID (comps w) compId (pool ! i) \<and>
            (\<forall>j. i < j \<and> j < length pool \<longrightarrow> \<not> hasID (comps w) compId (pool ! j)) \<longrightarrow>
            removeComponentWithID pool compId w =
              (Inr (Some (pool ! i), take i pool @ drop (Suc i) pool),
               jassert (compId \<noteq> []) EmptyComponentID w) \<and>
            mset pool = add_mset (pool ! i) (mset (take i pool @ drop (Suc i) pool)))
       \<and> ((\<forall>i<length pool. \<not> hasID (comps w) compId (pool ! i)) \<longrightarrow>
            removeComponentWithID pool compId w =
              (Inr (None, pool), jassert (compId \<noteq> []) EmptyComponentID w))
       \<and> (\<forall>kids acc.
            attachesFreshChild E \<and> poolInv (comps w) parent pool acc \<longrightarrow>
            (\<exists>pool' added w'.
               childStateLoop E parent kids pool acc w = (Inr (pool', acc @ added), w') \<and>
               distinct (pool' @ acc @ added) \<and>
               mset pool = mset pool' + mset (filter (\<lambda>c. c \<in> set pool) added) \<and>
               (\<forall>c\<in>set added. c \<notin> set pool \<longrightarrow> \<not> isLive (comps w) c)))
       \<and> (\<forall>kids acc pool' acc' w'.
            childStateLoop E parent kids pool acc w = (Inr (pool', acc'), w') \<longrightarrow>
            (\<exists>added. acc' = acc @ added \<and> mset pool' \<subseteq># mset pool \<and>
                     mset pool - mset pool' \<subseteq># mset added))"
proof (intro conjI allI impI)
  fix i
  assume i: "i < length pool"
    and m: "hasID (comps w) compId (pool ! i) \<and>
            (\<forall>j. i < j \<and> j < length pool \<longrightarrow> \<not> hasID (comps w) compId (pool ! j))"
  have "\<forall>j. i < j \<and> j < length pool \<longrightarrow>
          isLive (comps w) (pool ! j) \<and> \<not> hasID (comps w) compId (pool ! j)"
    using live m by simp
  then have "removeLoop (comps w) pool compId (length pool) =
               Inr (Some (pool ! i), take i pool @ drop (Suc i) pool)"
    using removeLoop_found [of "length pool" pool i "comps w" compId] i m by simp
  then show "removeComponentWithID pool compId w =
              (Inr (Some (pool ! i), take i pool @ drop (Suc i) pool),
               jassert (compId \<noteq> []) EmptyComponentID w)"
    by (simp add: removeComponentWithID_def Let_def)
  show "mset pool = add_mset (pool ! i) (mset (take i pool @ drop (Suc i) pool))"
    using i by (rule mset_remove_nth)
next
  assume n: "\<forall>i<length pool. \<not> hasID (comps w) compId (pool ! i)"
  have "\<forall>i<length pool. isLive (comps w) (pool ! i) \<and> \<not> hasID (comps w) compId (pool ! i)"
    using live n by simp
  then have "removeLoop (comps w) pool compId (length pool) = Inr (None, pool)"
    by (rule removeLoop_none)
  then show "removeComponentWithID pool compId w =
               (Inr (None, pool), jassert (compId \<noteq> []) EmptyComponentID w)"
    by (simp add: removeComponentWithID_def Let_def)
next
  fix kids acc
  assume a: "attachesFreshChild E \<and> poolInv (comps w) parent pool acc"
  then have c: "attachesFreshChild E" and inv: "poolInv (comps w) parent pool acc" by simp_all
  from childStateLoop_pass [OF c inv, of kids] obtain pool' added w' where
    loop: "childStateLoop E parent kids pool acc w = (Inr (pool', acc @ added), w')"
    and inv': "poolInv (comps w') parent pool' (acc @ added)"
    and ms: "mset pool = mset pool' + mset (filter (\<lambda>c. c \<in> set pool) added)"
    and fresh: "\<forall>c\<in>set added. c \<notin> set pool \<longrightarrow> \<not> isLive (comps w) c"
    by (elim exE conjE) (rule that)
  from inv' have d: "distinct (pool' @ acc @ added)" by (simp add: poolInv_def)
  show "\<exists>pool' added w'.
               childStateLoop E parent kids pool acc w = (Inr (pool', acc @ added), w') \<and>
               distinct (pool' @ acc @ added) \<and>
               mset pool = mset pool' + mset (filter (\<lambda>c. c \<in> set pool) added) \<and>
               (\<forall>c\<in>set added. c \<notin> set pool \<longrightarrow> \<not> isLive (comps w) c)"
    by (rule exI [of _ pool'], rule exI [of _ added], rule exI [of _ w'])
       (intro conjI loop d ms fresh)
next
  fix kids acc pool' acc' w'
  assume "childStateLoop E parent kids pool acc w = (Inr (pool', acc'), w')"
  then show "\<exists>added. acc' = acc @ added \<and> mset pool' \<subseteq># mset pool \<and>
                     mset pool - mset pool' \<subseteq># mset added"
    by (rule childStateLoop_consumes)
qed

theorem removeComponentWithID_last_match_witness:
  "removeComponentWithID [1, 2, 3] ''a'' (emptyWorld\<lparr>comps := panelHeap\<rparr>) =
     (Inr (Some 3, [1, 2]), emptyWorld\<lparr>comps := panelHeap\<rparr>)
   \<and> removeComponentWithID [1, 2, 3] ''zz'' (emptyWorld\<lparr>comps := panelHeap\<rparr>) =
     (Inr (None, [1, 2, 3]), emptyWorld\<lparr>comps := panelHeap\<rparr>)
   \<and> childStateLoop demoEnv 0 [Some 10, Some 11, Some 10] [1, 2, 3] [] (emptyWorld\<lparr>comps := panelHeap\<rparr>) =
       (Inr ([2], [3, 1]), emptyWorld\<lparr>comps := panelHeap, assertions := [UnknownType]\<rparr>)
   \<and> (\<exists>pool' added w'.
         childStateLoop demoEnv 0 [Some 10, Some 11, Some 10] [1, 2, 3] [] (emptyWorld\<lparr>comps := panelHeap\<rparr>) =
           (Inr (pool', added), w') \<and>
         distinct (pool' @ added) \<and>
         mset [1, 2, 3] = mset pool' + mset (filter (\<lambda>c. c \<in> set [1, 2, 3]) added))"
proof -
  let ?w = "emptyWorld\<lparr>comps := panelHeap\<rparr>"
  have live: "\<forall>c \<in> set [1, 2, 3]. isLive (comps ?w) c"
    by (simp add: isLive_def lookupC_def panelHeap_def)
  have a: "hasID (comps ?w) ''a'' ([1, 2, 3] ! 2) \<and>
           (\<forall>j. 2 < j \<and> j < length [1, 2, 3 :: nat] \<longrightarrow> \<not> hasID (comps ?w) ''a'' ([1, 2, 3] ! j))"
    by (simp add: hasID_def lookupC_def panelHeap_def button_def)
  have z: "\<forall>i<length [1, 2, 3 :: nat]. \<not> hasID (comps ?w) ''zz'' ([1, 2, 3] ! i)"
    by (simp add: hasID_def lookupC_def panelHeap_def button_def less_Suc_eq numeral_3_eq_3)
  have "2 < length [1, 2, 3 :: nat]" by simp
  with removeComponentWithID_last_match [OF live, THEN conjunct1, rule_format, where i = 2 and compId = "''a''"] a
  have 1: "removeComponentWithID [1, 2, 3] ''a'' ?w = (Inr (Some 3, [1, 2]), ?w)"
    by (simp add: jassert_def)
  from removeComponentWithID_last_match [OF live, THEN conjunct2, THEN conjunct1, rule_format, where compId = "''zz''"] z
  have 2: "removeComponentWithID [1, 2, 3] ''zz'' ?w = (Inr (None, [1, 2, 3]), ?w)"
    by (simp add: jassert_def)
  have inv: "attachesFreshChild demoEnv \<and> poolInv (comps ?w) 0 [1, 2, 3] []"
    by (simp add: appendComponent_contract)
       (simp add: poolInv_def isLive_def childrenOf_def isChildOf_def lookupC_def panelHeap_def button_def)
  from removeComponentWithID_last_match [OF live, THEN conjunct2, THEN conjunct2, THEN conjunct1,
      rule_format, OF inv, of "[Some 10, Some 11, Some 10]"]
  have 4: "\<exists>pool' added w'.
         childStateLoop demoEnv 0 [Some 10, Some 11, Some 10] [1, 2, 3] [] ?w = (Inr (pool', added), w') \<and>
         distinct (pool' @ added) \<and>
         mset [1, 2, 3] = mset pool' + mset (filter (\<lambda>c. c \<in> set [1, 2, 3]) added)"
    by (simp only: append_Nil) blast
  have 3: "childStateLoop demoEnv 0 [Some 10, Some 11, Some 10] [1, 2, 3] [] ?w =
       (Inr ([2], [3, 1]), emptyWorld\<lparr>comps := panelHeap, assertions := [UnknownType]\<rparr>)"
    by (simp add: eval_defs Let_def demo_defs panelHeap_def emptyWorld_def)
  from 1 2 3 4 show ?thesis by (intro conjI)
qed

theorem updateChildComponents_zorder_witness:
  "updateChildComponents demoEnv 0 (Some 6) builtWorld =
     (Inr (),
      builtWorld\<lparr>comps := [Some \<lparr>componentID = ''root'', parentComponent = None,
                                  childComponentList = [3, 2]\<rparr>,
                           None, Some (button ''b2'' (Some 0)), Some (button ''b3'' (Some 0))],
                 assertions := [UnknownType],
                 trace := [Created 1 (Some 7) (Some 0) (Some 3), Deleted 1, ToFront 2, ToBehind 3 2]\<rparr>)
   \<and> (\<exists>acc w'. updateChildComponents demoEnv 0 (Some 6) builtWorld = (Inr (), w') \<and>
               childrenOf (comps w') 0 = acc \<and> distinct acc \<and>
               map (getComponentID (comps w')) acc = [Some ''b3'', Some ''b2''])
   \<and> (\<exists>w'. updateChildComponents demoEnv 0 (Some 5) builtWorld = (Inr (), w') \<and>
            map (getComponentID (comps w')) (childrenOf (comps w') 0) = [Some ''b2'', Some ''b1''])"
proof -
  have ok: "familyTree (comps builtWorld) 0"
    by (simp add: familyTree_def familyOK_def isLive_def childrenOf_def isChildOf_def lookupC_def demo_defs)
  have k6: "keptStates demoEnv builtWorld
              (map (getComponentID (comps builtWorld)) (childrenOf (comps builtWorld) 0))
              (getChildren demoEnv (Some 6)) = [Some 7, Some 2]"
    by (simp add: childrenOf_def getComponentID_def lookupC_def getChildren_def getStateId_def
                  getHandlerForState_def getType_def demo_defs)
  from updateChildComponents_zorder [OF appendComponent_contract ok, of "Some 6"]
  obtain pool' acc w1 w' where
    a: "updateChildComponents demoEnv 0 (Some 6) builtWorld = (Inr (), w')"
       "map (getComponentID (comps w')) acc =
             map (\<lambda>s. Some (getStateId demoEnv s))
               (keptStates demoEnv builtWorld
                  (map (getComponentID (comps builtWorld)) (childrenOf (comps builtWorld) 0))
                  (getChildren demoEnv (Some 6)))"
       "childrenOf (comps w') 0 = acc" "distinct acc"
    by (elim exE conjE) (rule that)
  from a(2) have i6: "map (getComponentID (comps w')) acc = [Some ''b3'', Some ''b2'']"
    unfolding k6 by (simp add: getStateId_def demo_defs)
  have 2: "\<exists>acc w'. updateChildComponents demoEnv 0 (Some 6) builtWorld = (Inr (), w') \<and>
               childrenOf (comps w') 0 = acc \<and> distinct acc \<and>
               map (getComponentID (comps w')) acc = [Some ''b3'', Some ''b2'']"
    by (rule exI [of _ acc], rule exI [of _ w']) (intro conjI a(1) a(3) a(4) i6)
  have h5: "\<forall>s\<in>set (getChildren demoEnv (Some 5)). getHandlerForState demoEnv builtWorld s \<noteq> None"
    by (simp add: getChildren_def getHandlerForState_def getType_def demo_defs)
  from updateChildComponents_zorder [OF appendComponent_contract ok, of "Some 5"]
  obtain w5 where
    b: "updateChildComponents demoEnv 0 (Some 5) builtWorld = (Inr (), w5)"
       "(\<forall>s\<in>set (getChildren demoEnv (Some 5)). getHandlerForState demoEnv builtWorld s \<noteq> None) \<longrightarrow>
              map (getComponentID (comps w5)) (childrenOf (comps w5) 0) =
                map (\<lambda>s. Some (getStateId demoEnv s)) (getChildren demoEnv (Some 5))"
    by (elim exE conjE) (rule that)
  from b(2) h5 have "map (getComponentID (comps w5)) (childrenOf (comps w5) 0) =
                map (\<lambda>s. Some (getStateId demoEnv s)) (getChildren demoEnv (Some 5))"
    by blast
  then have i5: "map (getComponentID (comps w5)) (childrenOf (comps w5) 0) = [Some ''b2'', Some ''b1'']"
    by (simp add: getChildren_def getStateId_def demo_defs)
  have 3: "\<exists>w'. updateChildComponents demoEnv 0 (Some 5) builtWorld = (Inr (), w') \<and>
            map (getComponentID (comps w')) (childrenOf (comps w') 0) = [Some ''b2'', Some ''b1'']"
    by (rule exI [of _ w5]) (intro conjI b(1) i5)
  have 1: "updateChildComponents demoEnv 0 (Some 6) builtWorld =
     (Inr (),
      builtWorld\<lparr>comps := [Some \<lparr>componentID = ''root'', parentComponent = None,
                                  childComponentList = [3, 2]\<rparr>,
                           None, Some (button ''b2'' (Some 0)), Some (button ''b3'' (Some 0))],
                 assertions := [UnknownType],
                 trace := [Created 1 (Some 7) (Some 0) (Some 3), Deleted 1, ToFront 2, ToBehind 3 2]\<rparr>)"
    by (simp add: eval_defs Let_def demo_defs appendComponent_def)
  from 1 2 3 show ?thesis by (intro conjI)
qed

paragraph \<open>A state of unknown type\<close>

lemma getHandlerForState_jassert [simp]:
  "getHandlerForState E (jassert b a w) s = getHandlerForState E w s"
  by (simp add: getHandlerForState_def jassert_def)

lemma childStateLoop_append:
  "childStateLoop E p (xs @ ys) pool acc w =
     (case childStateLoop E p xs pool acc w of
        (Inl e, w1) \<Rightarrow> (Inl e, w1)
      | (Inr (pool1, acc1), w1) \<Rightarrow> childStateLoop E p ys pool1 acc1 w1)"
proof (induction xs arbitrary: pool acc w)
  case Nil
  then show ?case by simp
next
  case (Cons k xs)
  obtain r w1 where rm: "removeComponentWithID pool (getStateId E k) w = (r, w1)"
    by (cases "removeComponentWithID pool (getStateId E k) w")
  show ?case
  proof (cases r)
    case (Inl e)
    with rm show ?thesis by simp
  next
    case (Inr res)
    obtain found pool1 where res: "res = (found, pool1)" by (cases res)
    show ?thesis
    proof (cases found)
      case (Some c)
      with rm Inr res Cons.IH show ?thesis by simp
    next
      case None
      show ?thesis
      proof (cases "getHandlerForState E w1 k")
        case hNone: None
        with rm Inr res None Cons.IH show ?thesis by simp
      next
        case (Some t)
        obtain r2 w2 where cr: "createNewComponent E t k (Some p) w1 = (r2, w2)"
          by (cases "createNewComponent E t k (Some p) w1")
        with rm Inr res None Some Cons.IH show ?thesis by (cases r2) simp_all
      qed
    qed
  qed
qed

lemma childStateLoop_skip:
  assumes live: "\<forall>c\<in>set pool. isLive (comps w) c"
      and nomatch: "\<forall>c\<in>set pool. \<not> hasID (comps w) (getStateId E n) c"
      and unknown: "getHandlerForState E w n = None"
  shows "childStateLoop E p (n # rest) pool acc w =
         childStateLoop E p rest pool acc
           (jassert False UnknownType (jassert (getStateId E n \<noteq> []) EmptyComponentID w))"
proof -
  from live nomatch
  have "\<forall>i<length pool. isLive (comps w) (pool ! i) \<and> \<not> hasID (comps w) (getStateId E n) (pool ! i)"
    by simp
  then have "removeLoop (comps w) pool (getStateId E n) (length pool) = Inr (None, pool)"
    by (rule removeLoop_none)
  then have "removeComponentWithID pool (getStateId E n) w =
               (Inr (None, pool), jassert (getStateId E n \<noteq> []) EmptyComponentID w)"
    by (simp add: removeComponentWithID_def Let_def)
  with unknown show ?thesis by simp
qed

text \<open>
  Claim C5. Let the handlers keep their creation contract and the children of the
  parent be well formed. Let the loop have come through the states before a node
  \<open>n\<close> with the pool \<open>pool1\<close> and the result \<open>acc1\<close>, let the type of \<open>n\<close> have no
  registered handler and no pool member carry the id of \<open>n\<close>. Then the turn for
  \<open>n\<close> leaves the pool and the result as they were and only raises assertions. The
  loop goes on with the states after \<open>n\<close> from that same pool and result and comes
  to an end without an error: each of these states that gets an instance has it in
  the result, in order, and the pool entries taken are taken once. The call as a
  whole returns; after the loop it deletes the pool members that are left, the
  last one first, and makes the z-order calls for the result; in the world it
  returns none of these pool members is live, and the children of the parent are
  the result list.
\<close>

theorem childStateLoop_unknown_type:
  assumes c: "attachesFreshChild E" and ok: "familyTree (comps w) parent"
      and kids: "getChildren E children = before @ n # after"
      and pre: "childStateLoop E parent before (childrenOf (comps w) parent) [] w =
                  (Inr (pool1, acc1), w1)"
      and unknown: "getHandlerForState E w1 n = None"
      and nomatch: "\<forall>c\<in>set pool1. \<not> hasID (comps w1) (getStateId E n) c"
  shows "let skipped = jassert False UnknownType (jassert (getStateId E n \<noteq> []) EmptyComponentID w1)
         in childStateLoop E parent (before @ [n]) (childrenOf (comps w) parent) [] w =
              (Inr (pool1, acc1), skipped) \<and>
            (\<exists>pool' added w' w3.
               childStateLoop E parent after pool1 acc1 skipped = (Inr (pool', acc1 @ added), w') \<and>
               childStateLoop E parent (before @ n # after) (childrenOf (comps w) parent) [] w =
                 (Inr (pool', acc1 @ added), w') \<and>
               map (getComponentID (comps w')) added =
                 map (\<lambda>s. Some (getStateId E s))
                   (keptStates E w1 (map (getComponentID (comps w1)) pool1) after) \<and>
               mset pool1 = mset pool' + mset (filter (\<lambda>c. c \<in> set pool1) added) \<and>
               updateChildComponents E parent children w = (Inr (), w3) \<and>
               trace w3 = trace w' @ map Deleted (rev pool') @ zOrderCalls (acc1 @ added) \<and>
               (\<forall>c\<in>set pool'. \<not> isLive (comps w3) c) \<and>
               childrenOf (comps w3) parent = acc1 @ added)"
proof -
  let ?l = "childrenOf (comps w) parent"
  let ?skipped = "jassert False UnknownType (jassert (getStateId E n \<noteq> []) EmptyComponentID w1)"
  from ok have "familyOK (comps w) parent" by (rule familyTree_familyOK)
  then have "poolInv (comps w) parent ?l []" by (rule familyOK_poolInv)
  from childStateLoop_pass [OF c this, of before] pre
  have inv1: "poolInv (comps w1) parent pool1 acc1" by auto
  then have live1: "\<forall>c\<in>set pool1. isLive (comps w1) c" by (rule poolInv_live)
  have skip: "childStateLoop E parent (n # rest) pool1 acc1 w1 =
              childStateLoop E parent rest pool1 acc1 ?skipped" for rest
    using live1 nomatch unknown by (rule childStateLoop_skip)
  have 1: "childStateLoop E parent (before @ [n]) ?l [] w = (Inr (pool1, acc1), ?skipped)"
    by (simp add: childStateLoop_append pre skip del: childStateLoop.simps(2))
  have 2: "childStateLoop E parent (before @ n # after) ?l [] w =
           childStateLoop E parent after pool1 acc1 ?skipped"
    by (simp add: childStateLoop_append pre skip del: childStateLoop.simps(2))
  from inv1 have "poolInv (comps ?skipped) parent pool1 acc1" by simp
  from childStateLoop_pass [OF c this, of after] obtain pool' added w' where
    loop: "childStateLoop E parent after pool1 acc1 ?skipped = (Inr (pool', acc1 @ added), w')"
    and ms: "mset pool1 = mset pool' + mset (filter (\<lambda>c. c \<in> set pool1) added)"
    and ids0: "map (getComponentID (comps w')) added =
                 map (\<lambda>s. Some (getStateId E s))
                   (keptStates E ?skipped (map (getComponentID (comps ?skipped)) pool1) after)"
    by (elim exE conjE) (rule that)
  have "keptStates E ?skipped (map (getComponentID (comps w1)) pool1) after =
        keptStates E w1 (map (getComponentID (comps w1)) pool1) after"
    by (rule keptStates_cong) simp_all
  with ids0 have ids: "map (getComponentID (comps w')) added =
                 map (\<lambda>s. Some (getStateId E s))
                   (keptStates E w1 (map (getComponentID (comps w1)) pool1) after)"
    by simp
  from 2 loop have 3: "childStateLoop E parent (before @ n # after) ?l [] w =
                         (Inr (pool', acc1 @ added), w')"
    by simp
  from updateChildComponents_pass [OF c ok, of children] obtain pool2 acc2 w2 w3 where
    loop2: "childStateLoop E parent (getChildren E children) ?l [] w = (Inr (pool2, acc2), w2)"
    and u: "updateChildComponents E parent children w = (Inr (), w3)"
    and w3: "w3 = w2\<lparr>comps := comps w3, trace := trace w2 @ map Deleted (rev pool2) @ zOrderCalls acc2\<rparr>"
    and ch: "childrenOf (comps w3) parent = acc2"
    and dead: "\<forall>c\<in>set pool2. \<not> isLive (comps w3) c"
    by (elim exE conjE) (rule that)
  from loop2 3 have e: "pool2 = pool'" "acc2 = acc1 @ added" "w2 = w'"
    by (simp_all add: kids)
  have tr: "trace w3 = trace w' @ map Deleted (rev pool') @ zOrderCalls (acc1 @ added)"
    by (subst w3) (simp add: e)
  from ch have ch': "childrenOf (comps w3) parent = acc1 @ added" by (simp only: e)
  from dead have dead': "\<forall>c\<in>set pool'. \<not> isLive (comps w3) c" by (simp only: e)
  have "\<exists>pool' added w' w3.
               childStateLoop E parent after pool1 acc1 ?skipped = (Inr (pool', acc1 @ added), w') \<and>
               childStateLoop E parent (before @ n # after) ?l [] w =
                 (Inr (pool', acc1 @ added), w') \<and>
               map (getComponentID (comps w')) added =
                 map (\<lambda>s. Some (getStateId E s))
                   (keptStates E w1 (map (getComponentID (comps w1)) pool1) after) \<and>
               mset pool1 = mset pool' + mset (filter (\<lambda>c. c \<in> set pool1) added) \<and>
               updateChildComponents E parent children w = (Inr (), w3) \<and>
               trace w3 = trace w' @ map Deleted (rev pool') @ zOrderCalls (acc1 @ added) \<and>
               (\<forall>c\<in>set pool'. \<not> isLive (comps w3) c) \<and>
               childrenOf (comps w3) parent = acc1 @ added"
    by (rule exI [of _ pool'], rule exI [of _ added], rule exI [of _ w'], rule exI [of _ w3])
       (intro conjI loop 3 ids ms u tr dead' ch')
  with 1 show ?thesis by (simp only: Let_def)
qed


theorem childStateLoop_unknown_type_witness:
  "childStateLoop demoEnv 0 [Some 7, Some 4] [1, 2] [] builtWorld =
     (Inr ([1, 2], [3]),
      builtWorld\<lparr>comps := [Some \<lparr>componentID = ''root'', parentComponent = None,
                                  childComponentList = [1, 2, 3]\<rparr>,
                           Some (button ''b1'' (Some 0)), Some (button ''b2'' (Some 0)),
                           Some (button ''b3'' (Some 0))],
                 assertions := [UnknownType],
                 trace := [Created 1 (Some 7) (Some 0) (Some 3)]\<rparr>)
   \<and> (\<exists>w3. updateChildComponents demoEnv 0 (Some 6) builtWorld = (Inr (), w3) \<and>
            trace w3 = [Created 1 (Some 7) (Some 0) (Some 3), Deleted 1, ToFront 2, ToBehind 3 2] \<and>
            \<not> isLive (comps w3) 1 \<and> childrenOf (comps w3) 0 = [3, 2])"
proof -
  let ?h1 = "[Some \<lparr>componentID = ''root'', parentComponent = None,
                                  childComponentList = [1, 2, 3]\<rparr>,
                           Some (button ''b1'' (Some 0)), Some (button ''b2'' (Some 0)),
                           Some (button ''b3'' (Some 0))]"
  let ?w1 = "builtWorld\<lparr>comps := ?h1, trace := [Created 1 (Some 7) (Some 0) (Some 3)]\<rparr>"
  let ?sk = "jassert False UnknownType (jassert (getStateId demoEnv (Some 4) \<noteq> []) EmptyComponentID ?w1)"
  have ok: "familyTree (comps builtWorld) 0"
    by (simp add: familyTree_def familyOK_def isLive_def childrenOf_def isChildOf_def lookupC_def demo_defs)
  have kids: "getChildren demoEnv (Some 6) = [Some 7] @ Some 4 # [Some 2]"
    by (simp add: getChildren_def demo_defs)
  have c: "childrenOf (comps builtWorld) 0 = [1, 2]"
    by (simp add: childrenOf_def lookupC_def demo_defs)
  have pre: "childStateLoop demoEnv 0 [Some 7] (childrenOf (comps builtWorld) 0) [] builtWorld =
               (Inr ([1, 2], [3]), ?w1)"
    unfolding c by (simp add: eval_defs Let_def demo_defs appendComponent_def)
  have unknown: "getHandlerForState demoEnv ?w1 (Some 4) = None"
    by (simp add: getHandlerForState_def getType_def demo_defs)
  have nomatch: "\<forall>c\<in>set [1, 2]. \<not> hasID (comps ?w1) (getStateId demoEnv (Some 4)) c"
    by (simp add: hasID_def lookupC_def getStateId_def demo_defs)
  have sk: "?sk = ?w1\<lparr>assertions := [UnknownType]\<rparr>"
    by (simp add: jassert_def getStateId_def demo_defs)
  have after: "childStateLoop demoEnv 0 [Some 2] [1, 2] [3] ?sk =
                 (Inr ([1], [3, 2]), ?w1\<lparr>assertions := [UnknownType]\<rparr>)"
    unfolding sk by (simp add: eval_defs Let_def demo_defs)
  note t = childStateLoop_unknown_type [OF appendComponent_contract ok kids pre unknown nomatch,
      unfolded Let_def c]
  from t [THEN conjunct1]
  have 1: "childStateLoop demoEnv 0 [Some 7, Some 4] [1, 2] [] builtWorld =
     (Inr ([1, 2], [3]), ?w1\<lparr>assertions := [UnknownType]\<rparr>)"
    unfolding sk by (simp del: childStateLoop.simps)
  from t [THEN conjunct2] obtain pool' added w' w3 where
    l: "childStateLoop demoEnv 0 [Some 2] [1, 2] [3] ?sk = (Inr (pool', [3] @ added), w')"
    and u: "updateChildComponents demoEnv 0 (Some 6) builtWorld = (Inr (), w3)"
    and tr: "trace w3 = trace w' @ map Deleted (rev pool') @ zOrderCalls ([3] @ added)"
    and dead: "\<forall>c\<in>set pool'. \<not> isLive (comps w3) c"
    and ch: "childrenOf (comps w3) 0 = [3] @ added"
    by (elim exE conjE) (rule that)
  from l after have e: "pool' = [1]" "[3] @ added = [3, 2]" "w' = ?w1\<lparr>assertions := [UnknownType]\<rparr>"
    by simp_all
  from tr have tr': "trace w3 = [Created 1 (Some 7) (Some 0) (Some 3), Deleted 1, ToFront 2, ToBehind 3 2]"
    unfolding e by (simp add: zOrderCalls_def)
  from dead have d': "\<not> isLive (comps w3) 1" unfolding e by simp
  from ch have ch': "childrenOf (comps w3) 0 = [3, 2]" unfolding e .
  have 2: "\<exists>w3. updateChildComponents demoEnv 0 (Some 6) builtWorld = (Inr (), w3) \<and>
            trace w3 = [Created 1 (Some 7) (Some 0) (Some 3), Deleted 1, ToFront 2, ToBehind 3 2] \<and>
            \<not> isLive (comps w3) 1 \<and> childrenOf (comps w3) 0 = [3, 2]"
    by (rule exI [of _ w3]) (intro conjI u tr' d' ch')
  from 1 2 show ?thesis by simp
qed

end
